theory Spec2Isabelle
  imports Complex_Main "HOL-Library.Product_Lexorder"
begin

section \<open>The symbolic value layer\<close>

text \<open>
  The set classes of \<^verbatim>\<open>sympy/core/sets.py\<close> work on values of the symbolic kernel, which
  is not part of the module. The fragment of the kernel that the module's code paths
  inspect is modelled here: concrete rational numbers, the two infinities and free symbols
  (with their \<^verbatim>\<open>real\<close> assumption). Compound expressions are outside the fragment.
\<close>

datatype expr =
    Number rat
  | NegativeInfinity
  | Infinity
  | Symbol string bool

text \<open>Modelled from the spec: the value layer's predicates (\<^verbatim>\<open>is_real\<close>,
  \<^verbatim>\<open>is_comparable\<close>, \<^verbatim>\<open>is_number\<close>, \<^verbatim>\<open>is_Number\<close>), which the kernel
  supplies; a value is comparable when its order is concretely known.\<close>

fun is_real :: "expr \<Rightarrow> bool" where
  "is_real (Symbol n r) = r"
| "is_real _ = True"

fun is_comparable :: "expr \<Rightarrow> bool" where
  "is_comparable (Symbol n r) = False"
| "is_comparable _ = True"

fun is_number :: "expr \<Rightarrow> bool" where
  "is_number (Symbol n r) = False"
| "is_number _ = True"

fun is_Number :: "expr \<Rightarrow> bool" where
  "is_Number (Symbol n r) = False"
| "is_Number _ = True"

text \<open>Modelled from the spec: the truth value of the kernel's \<^verbatim>\<open><\<close> and \<^verbatim>\<open><=\<close> in a
  boolean context. On comparable values it is the order of the extended rationals. The
  code consults it on symbols only as the sort key of the Union constructor; there the
  order is not known and the model answers \<open>False\<close>.\<close>

fun expr_lt :: "expr \<Rightarrow> expr \<Rightarrow> bool" where
  "expr_lt (Number a) (Number b) = (a < b)"
| "expr_lt (Number a) Infinity = True"
| "expr_lt NegativeInfinity (Number b) = True"
| "expr_lt NegativeInfinity Infinity = True"
| "expr_lt _ _ = False"

fun expr_le :: "expr \<Rightarrow> expr \<Rightarrow> bool" where
  "expr_le (Number a) (Number b) = (a \<le> b)"
| "expr_le (Number a) Infinity = True"
| "expr_le NegativeInfinity (Number b) = True"
| "expr_le NegativeInfinity Infinity = True"
| "expr_le NegativeInfinity NegativeInfinity = True"
| "expr_le Infinity Infinity = True"
| "expr_le _ _ = False"

text \<open>Modelled from the spec: \<^verbatim>\<open>end - start == 0\<close> of the kernel's arithmetic. The
  difference of two equal infinities is not a number, so it is zero for equal finite
  numbers only.\<close>

fun diff_is_zero :: "expr \<Rightarrow> expr \<Rightarrow> bool" where
  "diff_is_zero (Number e) (Number s) = (e - s = 0)"
| "diff_is_zero _ _ = False"

text \<open>A relational or logical expression of the kernel is either a Python boolean or an
  unevaluated symbolic condition.\<close>

datatype truth = PyBool bool | Unresolved

text \<open>Modelled from the spec: the relational builders \<^verbatim>\<open>a < b\<close>, \<^verbatim>\<open>a <= b\<close>,
  \<^verbatim>\<open>a > b\<close>, \<^verbatim>\<open>a >= b\<close>. On comparable values they evaluate to a boolean. A symbol
  that is assumed real stands for a finite real number, so the kernel also decides its
  order against the two infinities and against itself: \<^verbatim>\<open>x > -oo\<close> and \<^verbatim>\<open>x < oo\<close> are
  \<open>True\<close>, \<^verbatim>\<open>x > x\<close> is \<open>False\<close>. Every other relation with a symbol operand stays
  symbolic. The connectives \<^verbatim>\<open>And\<close> and \<^verbatim>\<open>Or\<close> absorb \<^verbatim>\<open>False\<close> and \<^verbatim>\<open>True\<close>
  respectively and drop their neutral element.\<close>

fun symbolic_lt :: "expr \<Rightarrow> expr \<Rightarrow> truth" where
  "symbolic_lt (Symbol n r) Infinity = (if r then PyBool True else Unresolved)"
| "symbolic_lt NegativeInfinity (Symbol n r) = (if r then PyBool True else Unresolved)"
| "symbolic_lt Infinity (Symbol n r) = (if r then PyBool False else Unresolved)"
| "symbolic_lt (Symbol n r) NegativeInfinity = (if r then PyBool False else Unresolved)"
| "symbolic_lt (Symbol n r) (Symbol m q) =
     (if r \<and> q \<and> n = m then PyBool False else Unresolved)"
| "symbolic_lt _ _ = Unresolved"

fun symbolic_le :: "expr \<Rightarrow> expr \<Rightarrow> truth" where
  "symbolic_le (Symbol n r) Infinity = (if r then PyBool True else Unresolved)"
| "symbolic_le NegativeInfinity (Symbol n r) = (if r then PyBool True else Unresolved)"
| "symbolic_le Infinity (Symbol n r) = (if r then PyBool False else Unresolved)"
| "symbolic_le (Symbol n r) NegativeInfinity = (if r then PyBool False else Unresolved)"
| "symbolic_le (Symbol n r) (Symbol m q) =
     (if r \<and> q \<and> n = m then PyBool True else Unresolved)"
| "symbolic_le _ _ = Unresolved"

definition rel_lt :: "expr \<Rightarrow> expr \<Rightarrow> truth" where
  "rel_lt a b =
    (if is_comparable a \<and> is_comparable b then PyBool (expr_lt a b) else symbolic_lt a b)"

definition rel_le :: "expr \<Rightarrow> expr \<Rightarrow> truth" where
  "rel_le a b =
    (if is_comparable a \<and> is_comparable b then PyBool (expr_le a b) else symbolic_le a b)"

definition rel_gt :: "expr \<Rightarrow> expr \<Rightarrow> truth" where
  "rel_gt a b = rel_lt b a"

definition rel_ge :: "expr \<Rightarrow> expr \<Rightarrow> truth" where
  "rel_ge a b = rel_le b a"

fun And :: "truth \<Rightarrow> truth \<Rightarrow> truth" where
  "And (PyBool False) _ = PyBool False"
| "And _ (PyBool False) = PyBool False"
| "And (PyBool True) t = t"
| "And t (PyBool True) = t"
| "And Unresolved Unresolved = Unresolved"

fun Or :: "truth list \<Rightarrow> truth" where
  "Or [] = PyBool False"
| "Or (PyBool True # ts) = PyBool True"
| "Or (PyBool False # ts) = Or ts"
| "Or (Unresolved # ts) = (case Or ts of PyBool True \<Rightarrow> PyBool True | _ \<Rightarrow> Unresolved)"

section \<open>Errors and results\<close>

text \<open>
  The exceptions the module can end in. \<open>ValueError\<close>, \<open>NotImplementedError\<close> and
  \<open>TypeError\<close> are raised by name. \<open>NameError\<close> is what Python raises when a \<^verbatim>\<open>raise\<close>
  statement names a class that no import and no builtin defines; \<open>AttributeError\<close> and
  \<open>IndexError\<close> come from reading an attribute or an index that is not there.
\<close>

datatype error =
    ValueError
  | NotImplementedError
  | TypeError
  | NameError
  | AttributeError
  | IndexError

type_synonym 'a result = "error + 'a"

definition bind :: "'a result \<Rightarrow> ('a \<Rightarrow> 'b result) \<Rightarrow> 'b result" where
  "bind r f = (case r of Inl e \<Rightarrow> Inl e | Inr v \<Rightarrow> f v)"

lemma bind_Inr: "bind (Inr v) f = f v"
  by (simp add: bind_def)

lemma bind_Inl: "bind (Inl e) f = Inl e"
  by (simp add: bind_def)

text \<open>A list built by a loop or a comprehension: the first element that raises ends it.\<close>

fun sequence :: "'a result list \<Rightarrow> 'a list result" where
  "sequence [] = Inr []"
| "sequence (r # rs) =
     (case r of Inl e \<Rightarrow> Inl e
      | Inr v \<Rightarrow> (case sequence rs of Inl e \<Rightarrow> Inl e | Inr vs \<Rightarrow> Inr (v # vs)))"

section \<open>The set variants\<close>

text \<open>
  One constructor per concrete class. \<open>AbstractSet\<close> and \<open>DiscreteSet\<close> are direct
  instances of the base classes \<^verbatim>\<open>Set\<close> and \<^verbatim>\<open>DiscreteSet\<close>, which implement none of
  the hooks. A \<open>FiniteSet\<close> carries its \<^verbatim>\<open>elements\<close> frozenset as a duplicate-free list
  (in some iteration order); \<open>UnionSet\<close> carries \<^verbatim>\<open>args\<close>.
\<close>

datatype sset =
    EmptySet
  | AbstractSet
  | DiscreteSet
  | Interval expr expr bool bool
  | FiniteSet "expr list"
  | SingletonSet expr
  | UnionSet "sset list"

text \<open>\<^verbatim>\<open>isinstance\<close>: \<^verbatim>\<open>SingletonSet\<close> derives from both \<^verbatim>\<open>FiniteSet\<close> and
  \<^verbatim>\<open>Interval\<close>.\<close>

fun is_FiniteSet :: "sset \<Rightarrow> bool" where
  "is_FiniteSet (FiniteSet els) = True"
| "is_FiniteSet (SingletonSet v) = True"
| "is_FiniteSet _ = False"

fun is_Interval :: "sset \<Rightarrow> bool" where
  "is_Interval (Interval s e lo ro) = True"
| "is_Interval (SingletonSet v) = True"
| "is_Interval _ = False"

text \<open>The \<^verbatim>\<open>start\<close>, \<^verbatim>\<open>end\<close>, \<^verbatim>\<open>left_open\<close>, \<^verbatim>\<open>right_open\<close> properties read
  \<^verbatim>\<open>_args\<close>; \<^verbatim>\<open>SingletonSet(val)\<close> stores \<^verbatim>\<open>(val, val, False, False)\<close>. Other
  variants have no such attributes.\<close>

fun interval_args :: "sset \<Rightarrow> (expr \<times> expr \<times> bool \<times> bool) option" where
  "interval_args (Interval s e lo ro) = Some (s, e, lo, ro)"
| "interval_args (SingletonSet v) = Some (v, v, False, False)"
| "interval_args _ = None"

text \<open>The \<^verbatim>\<open>elements\<close> attribute of the finite variants.\<close>

fun elements :: "sset \<Rightarrow> expr list option" where
  "elements (FiniteSet els) = Some els"
| "elements (SingletonSet v) = Some [v]"
| "elements _ = None"

text \<open>\<^verbatim>\<open>__len__\<close> is defined by \<^verbatim>\<open>EmptySet\<close> and \<^verbatim>\<open>FiniteSet\<close> only.\<close>

fun len :: "sset \<Rightarrow> nat result" where
  "len EmptySet = Inr 0"
| "len (FiniteSet els) = Inr (length els)"
| "len (SingletonSet v) = Inr (length [v])"
| "len _ = Inl TypeError"

subsection \<open>Equality\<close>

text \<open>
  \<^verbatim>\<open>FiniteSet.__eq__\<close> compares the element collections and is \<open>False\<close> against any
  other class; every other variant inherits the structural equality of the kernel (same
  class, equal argument tuples, the arguments compared with \<^verbatim>\<open>==\<close> in turn).
\<close>

fun set_eq :: "sset \<Rightarrow> sset \<Rightarrow> bool" where
  "set_eq (FiniteSet xs) t = (case elements t of Some ys \<Rightarrow> set xs = set ys | None \<Rightarrow> False)"
| "set_eq (SingletonSet v) t = (case elements t of Some ys \<Rightarrow> set [v] = set ys | None \<Rightarrow> False)"
| "set_eq EmptySet t = (t = EmptySet)"
| "set_eq AbstractSet t = (t = AbstractSet)"
| "set_eq DiscreteSet t = (t = DiscreteSet)"
| "set_eq (Interval s e lo ro) t = (t = Interval s e lo ro)"
| "set_eq (UnionSet cs) (UnionSet ds) = list_all2 set_eq cs ds"
| "set_eq (UnionSet cs) _ = False"

section \<open>Constructors of the value variants\<close>

text \<open>\<^verbatim>\<open>SingletonSet.__new__\<close>.\<close>

definition SingletonSet_new :: "expr \<Rightarrow> sset" where
  "SingletonSet_new val = SingletonSet val"

text \<open>\<^verbatim>\<open>Interval.__new__\<close>.\<close>

definition Interval_new :: "expr \<Rightarrow> expr \<Rightarrow> bool \<Rightarrow> bool \<Rightarrow> sset result" where
  "Interval_new start end left_open right_open =
    (if \<not> is_real start \<or> \<not> is_real end then Inl ValueError
     else if is_comparable end \<and> is_comparable start \<and> expr_lt end start then Inr EmptySet
     else if end = start \<and> (left_open \<or> right_open) then Inr EmptySet
     else if end = start \<and> \<not> (left_open \<or> right_open) then Inr (SingletonSet_new end)
     else
       let left_open = (if start = NegativeInfinity then True else left_open);
           right_open = (if end = Infinity then True else right_open)
       in Inr (Interval start end left_open right_open))"

text \<open>
  \<^verbatim>\<open>FiniteSet.__new__\<close> is called either with the elements as positional arguments or
  with one iterable of them (a list, a frozenset, a generator); both forms leave a list of
  values in \<^verbatim>\<open>args\<close>. The two tests on \<^verbatim>\<open>len(args)\<close> come before the frozenset is
  built.
\<close>

datatype fs_args = Positional "expr list" | OneIterable "expr list"

fun unpack_args :: "fs_args \<Rightarrow> expr list" where
  "unpack_args (Positional xs) = xs"
| "unpack_args (OneIterable xs) = xs"

definition FiniteSet_new :: "fs_args \<Rightarrow> sset" where
  "FiniteSet_new a =
    (let args = unpack_args a in
     if length args = 1 \<and> is_number (args ! 0) then SingletonSet_new (args ! 0)
     else if length args = 0 then EmptySet
     else FiniteSet (remdups args))"

section \<open>Containment\<close>

text \<open>\<^verbatim>\<open>contains\<close> dispatches to \<^verbatim>\<open>_contains\<close>: the base class raises, \<^verbatim>\<open>Interval\<close>
  builds a conjunction of two relations, \<^verbatim>\<open>FiniteSet\<close> (and through it
  \<^verbatim>\<open>SingletonSet\<close>) tests membership in \<^verbatim>\<open>elements\<close>, \<^verbatim>\<open>Union\<close> collects the
  components' answers and disjoins them.\<close>

fun contains :: "sset \<Rightarrow> expr \<Rightarrow> truth result" where
  "contains EmptySet other = Inr (PyBool False)"
| "contains AbstractSet other = Inl NotImplementedError"
| "contains DiscreteSet other = Inl NotImplementedError"
| "contains (Interval s e lo ro) other =
     (let expr = (if lo then rel_gt other s else rel_ge other s) in
      Inr (if ro then And expr (rel_lt other e) else And expr (rel_le other e)))"
| "contains (FiniteSet els) other = Inr (PyBool (other \<in> set els))"
| "contains (SingletonSet v) other = Inr (PyBool (other \<in> set [v]))"
| "contains (UnionSet cs) other =
     (case sequence (map (\<lambda>the_set. contains the_set other) cs) of
        Inl e \<Rightarrow> Inl e
      | Inr or_args \<Rightarrow> Inr (Or or_args))"

text \<open>\<^verbatim>\<open>__contains__\<close>, the \<^verbatim>\<open>in\<close> operator: the answer must be a boolean.\<close>

definition in_op :: "expr \<Rightarrow> sset \<Rightarrow> bool result" where
  "in_op other s =
    (case contains s other of
       Inl e \<Rightarrow> Inl e
     | Inr (PyBool b) \<Rightarrow> Inr b
     | Inr Unresolved \<Rightarrow> Inl TypeError)"

section \<open>The Union constructor\<close>

text \<open>
  What \<^verbatim>\<open>Union(*args)\<close> can be handed: a set, an iterable of further arguments that is
  not itself a set, or anything else.
\<close>

datatype pyobj = SetObj sset | IterObj "pyobj list" | OtherObj

fun weight :: "pyobj \<Rightarrow> nat" where
  "weight (SetObj s) = Suc (size s)"
| "weight (IterObj xs) = Suc (sum_list (map weight xs))"
| "weight OtherObj = 1"

text \<open>
  The first loop of \<^verbatim>\<open>Union.__new__\<close> walks \<^verbatim>\<open>args\<close> while appending to it: the
  components of a nested Union and the items of an iterable are put at the end of the work
  list. The three accumulators are the buckets \<^verbatim>\<open>intervals\<close>, \<^verbatim>\<open>finite_sets\<close> and
  \<^verbatim>\<open>other_sets\<close>. The \<^verbatim>\<open>isinstance\<close> tests are tried in the source's order, so a
  \<^verbatim>\<open>SingletonSet\<close> lands among the finite sets.
\<close>

lemma weight_SetObj_list: "sum_list (map (weight \<circ> SetObj) cs) = size_list size cs"
  by (induction cs) auto

function (sequential) classify ::
  "pyobj list \<Rightarrow> sset list \<Rightarrow> sset list \<Rightarrow> sset list \<Rightarrow> (sset list \<times> sset list \<times> sset list) result"
where
  "classify [] intervals finite_sets other_sets = Inr (intervals, finite_sets, other_sets)"
| "classify (SetObj EmptySet # args) intervals finite_sets other_sets =
     classify args intervals finite_sets other_sets"
| "classify (SetObj (UnionSet cs) # args) intervals finite_sets other_sets =
     classify (args @ map SetObj cs) intervals finite_sets other_sets"
| "classify (SetObj arg # args) intervals finite_sets other_sets =
     (if is_FiniteSet arg then classify args intervals (finite_sets @ [arg]) other_sets
      else if is_Interval arg then classify args (intervals @ [arg]) finite_sets other_sets
      else classify args intervals finite_sets (other_sets @ [arg]))"
| "classify (IterObj xs # args) intervals finite_sets other_sets =
     classify (args @ xs) intervals finite_sets other_sets"
| "classify (OtherObj # args) intervals finite_sets other_sets = Inl ValueError"
  by pat_completeness auto

termination
  by (relation "measure (\<lambda>(args, iv, fs, os). sum_list (map weight args))")
     (auto simp: weight_SetObj_list)

text \<open>
  \<^verbatim>\<open>list.sort(key=...)\<close> and \<^verbatim>\<open>sorted\<close>: a stable sort that compares keys with
  \<^verbatim>\<open><\<close>. Each item is inserted behind every item that is not greater; on totally
  ordered keys every stable sort returns this list.
\<close>

fun insert_by_key :: "expr \<times> 'a \<Rightarrow> (expr \<times> 'a) list \<Rightarrow> (expr \<times> 'a) list" where
  "insert_by_key x [] = [x]"
| "insert_by_key x (y # ys) =
     (if expr_lt (fst x) (fst y) then x # y # ys else y # insert_by_key x ys)"

definition sort_by_key :: "(expr \<times> 'a) list \<Rightarrow> 'a list" where
  "sort_by_key xs = map snd (foldl (\<lambda>acc x. insert_by_key x acc) [] xs)"

text \<open>The key \<^verbatim>\<open>lambda i: i.start\<close>.\<close>

definition start_key :: "sset \<Rightarrow> (expr \<times> sset) result" where
  "start_key i =
    (case interval_args i of None \<Rightarrow> Inl AttributeError | Some (s, e, lo, ro) \<Rightarrow> Inr (s, i))"

definition sort_intervals :: "sset list \<Rightarrow> sset list result" where
  "sort_intervals intervals =
    (case sequence (map start_key intervals) of
       Inl e \<Rightarrow> Inl e
     | Inr keyed \<Rightarrow> Inr (sort_by_key keyed))"

text \<open>\<^verbatim>\<open>Interval._is_comparable\<close> on the four end points.\<close>

definition is_comparable4 :: "expr \<Rightarrow> expr \<Rightarrow> expr \<Rightarrow> expr \<Rightarrow> bool" where
  "is_comparable4 s e s' e' =
    (is_comparable s \<and> is_comparable e \<and> is_comparable s' \<and> is_comparable e')"

text \<open>The test \<^verbatim>\<open>merge\<close> of the merge loop, for \<^verbatim>\<open>cur\<close> and \<^verbatim>\<open>next\<close>.\<close>

definition should_merge :: "expr \<times> expr \<times> bool \<times> bool \<Rightarrow> expr \<times> expr \<times> bool \<times> bool \<Rightarrow> bool" where
  "should_merge cur next =
    (case (cur, next) of ((cs, ce, clo, cro), (ns, ne, nlo, nro)) \<Rightarrow>
       if is_comparable4 cs ce ns ne then
         (if expr_lt ns ce then True
          else if ns = ce then \<not> (nlo \<and> cro)
          else False)
       else False)"

text \<open>The interval that replaces \<^verbatim>\<open>cur\<close> and \<^verbatim>\<open>next\<close> when they merge.\<close>

definition merged :: "expr \<times> expr \<times> bool \<times> bool \<Rightarrow> expr \<times> expr \<times> bool \<times> bool \<Rightarrow> sset result" where
  "merged cur next =
    (case (cur, next) of ((cs, ce, clo, cro), (ns, ne, nlo, nro)) \<Rightarrow>
       let left_open = (if cs = ns then clo \<and> nlo else clo);
           right_open = (if expr_lt ce ne then nro else if expr_lt ne ce then cro else cro \<and> nro);
           end = (if expr_lt ce ne then ne else if expr_lt ne ce then ce else ce)
       in Interval_new cs end left_open right_open)"

text \<open>
  The merge loop \<^verbatim>\<open>while i < len(intervals) - 1\<close>: the items before index \<open>i\<close> are
  final, so the loop is a recursion on the rest of the list. A merge puts the new
  interval at index \<open>i\<close> and stays there; otherwise \<open>i\<close> moves on.
\<close>

fun merge_intervals :: "sset list \<Rightarrow> sset list result" where
  "merge_intervals (cur # next # rest) =
     (case interval_args cur of
        None \<Rightarrow> Inl AttributeError
      | Some c \<Rightarrow>
         (case interval_args next of
            None \<Rightarrow> Inl AttributeError
          | Some n \<Rightarrow>
             if should_merge c n then
               (case merged c n of
                  Inl e \<Rightarrow> Inl e
                | Inr m \<Rightarrow> merge_intervals (m # rest))
             else
               (case merge_intervals (next # rest) of
                  Inl e \<Rightarrow> Inl e
                | Inr r \<Rightarrow> Inr (cur # r))))"
| "merge_intervals intervals = Inr intervals"

text \<open>\<^verbatim>\<open>FiniteSet.union\<close> against another finite set: the union of the two frozensets goes
  through the constructor again.\<close>

definition finite_union :: "expr list \<Rightarrow> expr list \<Rightarrow> sset" where
  "finite_union xs ys = FiniteSet_new (OneIterable (remdups (xs @ ys)))"

text \<open>\<^verbatim>\<open>sum(finite_sets[1:], finite_sets[0])\<close>, where \<^verbatim>\<open>+\<close> is \<^verbatim>\<open>union\<close>.\<close>

fun sum_finite_sets :: "sset \<Rightarrow> sset list \<Rightarrow> sset result" where
  "sum_finite_sets acc [] = Inr acc"
| "sum_finite_sets acc (f # fs) =
     (case elements acc of
        None \<Rightarrow> Inl AttributeError
      | Some xs \<Rightarrow>
         (case elements f of
            None \<Rightarrow> Inl AttributeError
          | Some ys \<Rightarrow> sum_finite_sets (finite_union xs ys) fs))"

text \<open>One round of the loop that closes open boundaries lying in the merged finite set.\<close>

definition close_interval :: "sset \<Rightarrow> sset \<Rightarrow> sset result" where
  "close_interval finite_set i =
    (case interval_args i of
       None \<Rightarrow> Inl AttributeError
     | Some (s, e, lo, ro) \<Rightarrow>
        bind (if lo then in_op s finite_set else Inr False) (\<lambda>closeLeft.
        bind (if ro then in_op e finite_set else Inr False) (\<lambda>closeRight.
          if (closeLeft \<and> lo) \<or> (closeRight \<and> ro)
          then Interval_new s e (\<not> closeLeft) (\<not> closeRight)
          else Inr i)))"

text \<open>\<^verbatim>\<open>any(el in i for i in intervals)\<close> stops at the first \<open>True\<close>.\<close>

fun any_in :: "expr \<Rightarrow> sset list \<Rightarrow> bool result" where
  "any_in el [] = Inr False"
| "any_in el (i # intervals) =
     (case in_op el i of
        Inl e \<Rightarrow> Inl e
      | Inr b \<Rightarrow> if b then Inr True else any_in el intervals)"

text \<open>A generator with a condition, consumed to the end.\<close>

fun filter_result :: "('a \<Rightarrow> bool result) \<Rightarrow> 'a list \<Rightarrow> 'a list result" where
  "filter_result p [] = Inr []"
| "filter_result p (x # xs) =
     (case p x of
        Inl e \<Rightarrow> Inl e
      | Inr b \<Rightarrow>
         (case filter_result p xs of
            Inl e \<Rightarrow> Inl e
          | Inr ys \<Rightarrow> Inr (if b then x # ys else ys)))"

text \<open>The elements of the merged finite set that stay: \<^verbatim>\<open>not el.is_number or not
  any(el in i for i in intervals)\<close>.\<close>

definition not_covered :: "sset list \<Rightarrow> expr \<Rightarrow> bool result" where
  "not_covered intervals el =
    (if \<not> is_number el then Inr True
     else bind (any_in el intervals) (\<lambda>b. Inr (\<not> b)))"

text \<open>The block \<^verbatim>\<open>if finite_sets:\<close>; it returns the new \<^verbatim>\<open>intervals\<close> and
  \<^verbatim>\<open>other_sets\<close>.\<close>

definition absorb_finite_sets ::
  "sset list \<Rightarrow> sset list \<Rightarrow> sset list \<Rightarrow> (sset list \<times> sset list) result" where
  "absorb_finite_sets intervals finite_sets other_sets =
    (case finite_sets of
       [] \<Rightarrow> Inr (intervals, other_sets)
     | f # fs \<Rightarrow>
        bind (sum_finite_sets f fs) (\<lambda>finite_set.
        bind (sequence (map (close_interval finite_set) intervals)) (\<lambda>intervals.
        case elements finite_set of
          None \<Rightarrow> Inl AttributeError
        | Some els \<Rightarrow>
           bind (filter_result (not_covered intervals) els) (\<lambda>kept.
           let finite_complement = FiniteSet_new (OneIterable kept) in
           bind (len finite_complement) (\<lambda>n.
           Inr (intervals, if n > 0 then other_sets @ [finite_complement] else other_sets))))))"

text \<open>\<^verbatim>\<open>Union.__new__\<close>.\<close>

definition Union_new :: "pyobj list \<Rightarrow> sset result" where
  "Union_new args =
    bind (classify args [] [] []) (\<lambda>(intervals, finite_sets, other_sets).
      if intervals = [] \<and> other_sets = [] \<and> finite_sets = [] then Inr EmptySet
      else
        bind (sort_intervals intervals) (\<lambda>intervals.
        bind (merge_intervals intervals) (\<lambda>intervals.
        bind (absorb_finite_sets intervals finite_sets other_sets) (\<lambda>(intervals, other_sets).
          if length intervals = 1 \<and> length other_sets = 0 then Inr (intervals ! 0)
          else if length intervals = 0 \<and> length other_sets = 1 then Inr (other_sets ! 0)
          else Inr (UnionSet (intervals @ other_sets))))))"

text \<open>A call \<^verbatim>\<open>Union(s1, ..., sn)\<close> whose arguments are all sets.\<close>

definition Union_of :: "sset list \<Rightarrow> sset result" where
  "Union_of sets = Union_new (map SetObj sets)"

section \<open>Intersection\<close>

text \<open>The comparable case of \<^verbatim>\<open>Interval._intersect\<close>, on the argument tuples of
  \<^verbatim>\<open>self\<close> and \<^verbatim>\<open>other\<close>.\<close>

definition interval_intersect ::
  "expr \<times> expr \<times> bool \<times> bool \<Rightarrow> expr \<times> expr \<times> bool \<times> bool \<Rightarrow> sset result" where
  "interval_intersect self other =
    (case (self, other) of ((ss, se, slo, sro), (os, oe, olo, oro)) \<Rightarrow>
       if \<not> is_comparable4 ss se os oe then Inl NotImplementedError
       else if expr_le ss oe \<and> expr_le os se then
         let start = (if expr_lt ss os then os else if expr_lt os ss then ss else ss);
             left_open = (if expr_lt ss os then olo else if expr_lt os ss then slo else slo \<or> olo);
             end = (if expr_lt se oe then se else if expr_lt oe se then oe else se);
             right_open = (if expr_lt se oe then sro else if expr_lt oe se then oro else sro \<or> oro)
         in if diff_is_zero end start \<and> (left_open \<or> right_open) then Inr EmptySet
            else Interval_new start end left_open right_open
       else Inr EmptySet)"

text \<open>\<^verbatim>\<open>FiniteSet._intersect\<close>: against a finite set the frozensets are intersected;
  against anything else the elements are filtered with the \<^verbatim>\<open>in\<close> operator.\<close>

definition finite_intersect :: "expr list \<Rightarrow> sset \<Rightarrow> sset result" where
  "finite_intersect els other =
    (case elements other of
       Some ys \<Rightarrow> Inr (FiniteSet_new (OneIterable (filter (\<lambda>x. x \<in> set ys) els)))
     | None \<Rightarrow>
        (case filter_result (\<lambda>el. in_op el other) els of
           Inl e \<Rightarrow> Inl e
         | Inr kept \<Rightarrow> Inr (FiniteSet_new (OneIterable kept))))"

text \<open>Whether \<^verbatim>\<open>_intersect\<close> hands the call over to \<^verbatim>\<open>other.intersect(self)\<close> at
  once; used to show that the mutual delegation ends.\<close>

fun delegates :: "sset \<Rightarrow> sset \<Rightarrow> nat" where
  "delegates (Interval s e lo ro) other = (if interval_args other = None then 1 else 0)"
| "delegates (UnionSet cs) (UnionSet ds) = 0"
| "delegates (UnionSet cs) other = (if is_Interval other then 0 else 1)"
| "delegates _ _ = 0"

lemma size_member: "c \<in> set cs \<Longrightarrow> size (c::sset) < Suc (size_list size cs)"
  by (induction cs) auto

lemma delegates_le_1: "delegates a b \<le> 1"
  by (cases a; cases b) auto

lemma delegates_after_Interval:
  "interval_args other = None \<Longrightarrow> delegates other (Interval s e lo ro) = 0"
  by (cases other) auto

lemma delegates_after_Union:
  "\<not> is_Interval other \<Longrightarrow> is_FiniteSet other \<Longrightarrow>
   delegates other (UnionSet cs) < delegates (UnionSet cs) other"
  by (cases other) auto

lemma component_measure:
  assumes "c \<in> set cs"
  shows "2 * size c + delegates c b < Suc (Suc (2 * size_list size cs + k))"
    and "2 * size c + delegates a c < Suc (Suc (2 * size_list size cs))"
proof -
  have "size c < Suc (size_list size cs)"
    using assms by (rule size_member)
  moreover have "delegates c b \<le> 1" and "delegates a c \<le> 1"
    by (rule delegates_le_1)+
  ultimately show "2 * size c + delegates c b < Suc (Suc (2 * size_list size cs + k))"
    and "2 * size c + delegates a c < Suc (Suc (2 * size_list size cs))"
    by linarith+
qed

text \<open>
  \<^verbatim>\<open>intersect\<close> calls the \<^verbatim>\<open>_intersect\<close> of the class of \<^verbatim>\<open>self\<close>. The method
  resolution order of \<^verbatim>\<open>SingletonSet\<close> finds the one of \<^verbatim>\<open>FiniteSet\<close>.
\<close>

function intersect :: "sset \<Rightarrow> sset \<Rightarrow> sset result" where
  "intersect EmptySet other = Inr EmptySet"
| "intersect AbstractSet other = Inl NotImplementedError"
| "intersect DiscreteSet other = Inl NotImplementedError"
| "intersect (FiniteSet els) other = finite_intersect els other"
| "intersect (SingletonSet v) other = finite_intersect [v] other"
| "intersect (Interval s e lo ro) other =
     (case interval_args other of
        None \<Rightarrow> intersect other (Interval s e lo ro)
      | Some oa \<Rightarrow> interval_intersect (s, e, lo, ro) oa)"
| "intersect (UnionSet cs) other =
     (if is_Interval other then
        (case sequence (map (\<lambda>interval. intersect interval other) cs) of
           Inl e \<Rightarrow> Inl e
         | Inr intersections \<Rightarrow> Union_of intersections)
      else if is_FiniteSet other then intersect other (UnionSet cs)
      else
        (case other of
           UnionSet ds \<Rightarrow>
             (case sequence (map (\<lambda>s. intersect (UnionSet cs) s) ds) of
                Inl e \<Rightarrow> Inl e
              | Inr intersections \<Rightarrow> Union_of intersections)
         | _ \<Rightarrow> intersect other (UnionSet cs)))"
  by pat_completeness auto

termination
  by (relation "measure (\<lambda>(a, b). 2 * (size a + size b) + delegates a b)")
     (auto simp: delegates_after_Interval delegates_after_Union component_measure)

section \<open>Complement\<close>

text \<open>\<^verbatim>\<open>FiniteSet._complement\<close>. The class named in its \<^verbatim>\<open>raise\<close> statement is
  \<^verbatim>\<open>NotImpementedError\<close>, a name that is bound nowhere.\<close>

definition finite_complement :: "expr list \<Rightarrow> sset result" where
  "finite_complement els =
    (if \<not> list_all is_Number els then Inl NameError
     else
       let sorted_elements = sort_by_key (map (\<lambda>el. (el, el)) els) in
       if sorted_elements = [] then Inl IndexError
       else
         bind (Interval_new NegativeInfinity (sorted_elements ! 0) True True) (\<lambda>first.
         bind (sequence (map (\<lambda>(a, b). Interval_new a b True True)
                 (zip (butlast sorted_elements) (tl sorted_elements)))) (\<lambda>between.
         bind (Interval_new (last sorted_elements) Infinity True True) (\<lambda>final.
         Union_of ([first] @ between @ [final])))))"

text \<open>The \<^verbatim>\<open>complement\<close> property and the \<^verbatim>\<open>_complement\<close> of each class;
  \<^verbatim>\<open>Union._complement\<close> folds \<^verbatim>\<open>intersect\<close> over the components' complements.\<close>

fun complement :: "sset \<Rightarrow> sset result" where
  "complement EmptySet = Interval_new NegativeInfinity Infinity False False"
| "complement AbstractSet = Inl NotImplementedError"
| "complement DiscreteSet = Inl NotImplementedError"
| "complement (Interval s e lo ro) =
     bind (Interval_new NegativeInfinity s True (\<not> lo)) (\<lambda>a.
     bind (Interval_new e Infinity (\<not> ro) True) (\<lambda>b.
     Union_of [a, b]))"
| "complement (FiniteSet els) = finite_complement els"
| "complement (SingletonSet v) = finite_complement [v]"
| "complement (UnionSet []) = Inl IndexError"
| "complement (UnionSet (c # cs)) =
     fold (\<lambda>set acc.
             case acc of
               Inl e \<Rightarrow> Inl e
             | Inr complement_so_far \<Rightarrow>
                (case complement set of
                   Inl e \<Rightarrow> Inl e
                 | Inr set_complement \<Rightarrow> intersect complement_so_far set_complement))
          cs (complement c)"

section \<open>Union, difference and subset\<close>

text \<open>\<^verbatim>\<open>Set.union\<close> with the override \<^verbatim>\<open>FiniteSet.union\<close>; \<^verbatim>\<open>+\<close> is the same call.\<close>

definition union :: "sset \<Rightarrow> sset \<Rightarrow> sset result" where
  "union self other =
    (case elements self of
       None \<Rightarrow> Union_of [self, other]
     | Some xs \<Rightarrow>
        (case elements other of
           None \<Rightarrow> Union_of [self, other]
         | Some ys \<Rightarrow> Inr (finite_union xs ys)))"

text \<open>The binary \<^verbatim>\<open>-\<close>: \<^verbatim>\<open>Set.__sub__\<close>, overridden by \<^verbatim>\<open>FiniteSet.__sub__\<close>.\<close>

definition sub :: "sset \<Rightarrow> sset \<Rightarrow> sset result" where
  "sub self other =
    (case elements self of
       None \<Rightarrow> bind (complement other) (\<lambda>c. intersect self c)
     | Some els \<Rightarrow>
        bind (filter_result (\<lambda>el. bind (in_op el other) (\<lambda>b. Inr (\<not> b))) els) (\<lambda>kept.
        Inr (FiniteSet_new (OneIterable kept))))"

text \<open>\<^verbatim>\<open>Set.subset\<close>: whether \<^verbatim>\<open>other\<close> is a subset of \<^verbatim>\<open>self\<close>.\<close>

definition subset :: "sset \<Rightarrow> pyobj \<Rightarrow> bool result" where
  "subset self other =
    (case other of
       SetObj other_set \<Rightarrow> bind (intersect self other_set) (\<lambda>r. Inr (set_eq r other_set))
     | _ \<Rightarrow> Inl ValueError)"

section \<open>Notions used in the proofs\<close>

text \<open>
  None of the following is part of the module; they say what the proofs below need to say
  about it. \<open>key\<close> places the comparable values in a linear order (pairs, compared
  lexicographically), so that \<open>expr_lt\<close> and \<open>expr_le\<close> become \<open><\<close> and \<open>\<le>\<close>.
\<close>

fun key :: "expr \<Rightarrow> int \<times> rat" where
  "key NegativeInfinity = (-1, 0)"
| "key (Number r) = (0, r)"
| "key Infinity = (1, 0)"
| "key (Symbol n r) = (2, 0)"

text \<open>\<open>inside x (s, e, lo, ro)\<close>: all three values are comparable and \<open>x\<close> lies between
  \<open>s\<close> and \<open>e\<close>, the boundaries counted as the flags say.\<close>

definition inside :: "expr \<Rightarrow> expr \<times> expr \<times> bool \<times> bool \<Rightarrow> bool" where
  "inside x a = (case a of (s, e, lo, ro) \<Rightarrow>
     is_comparable x \<and> is_comparable s \<and> is_comparable e \<and>
     (if lo then key s < key x else key s \<le> key x) \<and>
     (if ro then key x < key e else key x \<le> key e))"

text \<open>\<open>in_leaf x s\<close>: \<open>x\<close> is contained in \<open>s\<close>, or, for a Union, in a component at any
  depth. Unlike \<open>contains\<close> it does not fail when some other component cannot answer.\<close>

fun in_leaf :: "expr \<Rightarrow> sset \<Rightarrow> bool" where
  "in_leaf x (UnionSet cs) = (\<exists>c\<in>set cs. in_leaf x c)"
| "in_leaf x s = (contains s x = Inr (PyBool True))"

text \<open>\<open>queryable s\<close>: no component of \<open>s\<close> at any depth is an instance of a base class,
  whose \<^verbatim>\<open>_contains\<close> raises.\<close>

fun queryable :: "sset \<Rightarrow> bool" where
  "queryable AbstractSet = False"
| "queryable DiscreteSet = False"
| "queryable (UnionSet cs) = (\<forall>c\<in>set cs. queryable c)"
| "queryable _ = True"

text \<open>\<open>proper s\<close>: every interval in \<open>s\<close> has two different end points, in increasing
  order when they are comparable, and is open at an infinite end; the Interval constructor
  returns no other.\<close>

fun proper :: "sset \<Rightarrow> bool" where
  "proper (Interval s e lo ro) =
     (s \<noteq> e \<and> (is_comparable s \<and> is_comparable e \<longrightarrow> expr_lt s e)
      \<and> (s = NegativeInfinity \<longrightarrow> lo) \<and> (e = Infinity \<longrightarrow> ro))"
| "proper (UnionSet cs) = (\<forall>c\<in>set cs. proper c)"
| "proper _ = True"

fun pure_interval :: "sset \<Rightarrow> bool" where
  "pure_interval (Interval s e lo ro) = True"
| "pure_interval _ = False"

text \<open>The same notions for the arguments of the Union constructor.\<close>

fun obj_mem :: "expr \<Rightarrow> pyobj \<Rightarrow> bool" where
  "obj_mem x (SetObj s) = in_leaf x s"
| "obj_mem x (IterObj os) = (\<exists>ob\<in>set os. obj_mem x ob)"
| "obj_mem x OtherObj = False"

fun obj_proper :: "pyobj \<Rightarrow> bool" where
  "obj_proper (SetObj s) = proper s"
| "obj_proper (IterObj os) = (\<forall>ob\<in>set os. obj_proper ob)"
| "obj_proper OtherObj = True"

section \<open>Facts about the value order\<close>

lemma expr_lt_irrefl [simp]: "\<not> expr_lt a a"
  by (cases a) auto

lemma expr_lt_asym: "expr_lt a b \<Longrightarrow> \<not> expr_lt b a"
  by (cases a; cases b) auto

lemma expr_lt_trans: "expr_lt a b \<Longrightarrow> expr_lt b c \<Longrightarrow> expr_lt a c"
  by (cases a; cases b; cases c) auto

lemma expr_trichotomy:
  "is_comparable a \<Longrightarrow> is_comparable b \<Longrightarrow> expr_lt a b \<or> a = b \<or> expr_lt b a"
  by (cases a; cases b) auto

lemma expr_le_iff: "is_comparable a \<Longrightarrow> is_comparable b \<Longrightarrow> expr_le a b \<longleftrightarrow> \<not> expr_lt b a"
  by (cases a; cases b) auto

lemma comparable_is_real: "is_comparable a \<Longrightarrow> is_real a"
  by (cases a) auto

lemma not_lt_NegativeInfinity [simp]: "\<not> expr_lt a NegativeInfinity"
  by (cases a) auto

lemma not_Infinity_lt [simp]: "\<not> expr_lt Infinity a"
  by (cases a) auto

section \<open>Interval construction\<close>

text \<open>
  Claim C7. The Interval constructor normalises the degenerate cases: comparable end points
  (which are real) with \<open>end < start\<close> give the empty set; for a real end point,
  \<open>end = start\<close> with an open side gives the empty set, and \<open>end = start\<close> with both
  sides closed gives \<open>SingletonSet end\<close>. (An end point that is not real is rejected
  by the constructor's first test, before any normalisation.)
\<close>

theorem Interval_new_degenerate:
  "(is_comparable end \<and> is_comparable start \<and> expr_lt end start
      \<longrightarrow> Interval_new start end left_open right_open = Inr EmptySet)
 \<and> (is_real start \<and> end = start \<and> (left_open \<or> right_open)
      \<longrightarrow> Interval_new start end left_open right_open = Inr EmptySet)
 \<and> (is_real start \<and> end = start \<and> \<not> left_open \<and> \<not> right_open
      \<longrightarrow> Interval_new start end left_open right_open = Inr (SingletonSet end))"
  by (auto simp: Interval_new_def SingletonSet_new_def comparable_is_real)

text \<open>
  Claim C7, witness: \<^verbatim>\<open>Interval(2, 1)\<close>, \<^verbatim>\<open>Interval(1, 1, True, False)\<close> and
  \<^verbatim>\<open>Interval(1, 1, False, False)\<close>.
\<close>

theorem Interval_new_degenerate_witness:
  "Interval_new (Number 2) (Number 1) False False = Inr EmptySet
 \<and> Interval_new (Number 1) (Number 1) True False = Inr EmptySet
 \<and> Interval_new (Number 1) (Number 1) False False = Inr (SingletonSet (Number 1))"
proof -
  have "Interval_new (Number 2) (Number 1) False False = Inr EmptySet"
    using Interval_new_degenerate [of "Number 1" "Number 2" False False] by simp
  moreover have "Interval_new (Number 1) (Number 1) True False = Inr EmptySet"
    using Interval_new_degenerate [of "Number 1" "Number 1" True False] by simp
  moreover have "Interval_new (Number 1) (Number 1) False False = Inr (SingletonSet (Number 1))"
    using Interval_new_degenerate [of "Number 1" "Number 1" False False] by simp
  ultimately show ?thesis by simp
qed

text \<open>When the constructor returns the interval it was asked for.\<close>

lemma Interval_new_proper:
  assumes "is_comparable s" "is_comparable e" "expr_lt s e"
    and "s = NegativeInfinity \<longrightarrow> lo" and "e = Infinity \<longrightarrow> ro"
  shows "Interval_new s e lo ro = Inr (Interval s e lo ro)"
  using assms by (auto simp: Interval_new_def comparable_is_real dest: expr_lt_asym)

lemma Interval_new_fixed_iff:
  "Interval_new s e lo ro = Inr (Interval s e lo ro) \<longleftrightarrow>
     is_real s \<and> is_real e \<and> \<not> (is_comparable e \<and> is_comparable s \<and> expr_lt e s) \<and> e \<noteq> s
     \<and> (s = NegativeInfinity \<longrightarrow> lo) \<and> (e = Infinity \<longrightarrow> ro)"
  by (auto simp: Interval_new_def SingletonSet_new_def Let_def)

lemma Union_of_pair_sorted:
  assumes "\<not> expr_lt ns cs"
  shows "Union_of [Interval cs ce clo cro, Interval ns ne nlo nro] =
          (if should_merge (cs, ce, clo, cro) (ns, ne, nlo, nro)
           then merged (cs, ce, clo, cro) (ns, ne, nlo, nro)
           else Inr (UnionSet [Interval cs ce clo cro, Interval ns ne nlo nro]))"
  using assms
  by (auto simp add: Union_of_def Union_new_def bind_def sort_intervals_def start_key_def sort_by_key_def
       absorb_finite_sets_def split: sum.splits)

lemma Union_of_pair_swap:
  assumes "expr_lt ns cs"
  shows "Union_of [Interval cs ce clo cro, Interval ns ne nlo nro] =
         Union_of [Interval ns ne nlo nro, Interval cs ce clo cro]"
  using assms expr_lt_asym[OF assms]
  by (simp add: Union_of_def Union_new_def bind_def sort_intervals_def start_key_def sort_by_key_def)

section \<open>The merge rule of the Union constructor\<close>

lemma merge_intervals_step:
  "merge_intervals (Interval cs ce clo cro # Interval ns ne nlo nro # rest) =
    (if should_merge (cs, ce, clo, cro) (ns, ne, nlo, nro)
     then bind (merged (cs, ce, clo, cro) (ns, ne, nlo, nro)) (\<lambda>m. merge_intervals (m # rest))
     else bind (merge_intervals (Interval ns ne nlo nro # rest))
            (\<lambda>r. Inr (Interval cs ce clo cro # r)))"
  by (simp add: bind_def)

text \<open>
  Claim C2. Let \<open>cur\<close> and \<open>next\<close> be two intervals as the constructor builds them, with
  comparable end points. In the merge loop they merge exactly when the start of \<open>next\<close> is
  below the end of \<open>cur\<close>, or equal to it with not both touching sides open. The merged
  interval starts at the start of \<open>cur\<close> and ends at the larger end; where the two starts
  (the two ends) coincide its flag is open only if both flags are, and otherwise it is the
  flag of the interval whose bound it is. For a Union of just these two intervals, sorted by
  start, this decides the result: the merged interval, or the Union of both; and the sort
  makes the order of the two arguments irrelevant when the starts differ.
\<close>

theorem Union_merge_rule:
  assumes "Interval_new cs ce clo cro = Inr (Interval cs ce clo cro)"
    and "Interval_new ns ne nlo nro = Inr (Interval ns ne nlo nro)"
    and "is_comparable4 cs ce ns ne"
    and "\<not> expr_lt ns cs"
  shows "Union_of [Interval cs ce clo cro, Interval ns ne nlo nro] =
          (if expr_lt ns ce \<or> (ns = ce \<and> \<not> (nlo \<and> cro))
           then Inr (Interval cs (if expr_lt ce ne then ne else ce)
                       (if cs = ns then clo \<and> nlo else clo)
                       (if ce = ne then cro \<and> nro else if expr_lt ce ne then nro else cro))
           else Inr (UnionSet [Interval cs ce clo cro, Interval ns ne nlo nro]))
       \<and> (expr_lt cs ns \<longrightarrow>
            Union_of [Interval ns ne nlo nro, Interval cs ce clo cro] =
            Union_of [Interval cs ce clo cro, Interval ns ne nlo nro])
       \<and> (\<forall>rest. merge_intervals (Interval cs ce clo cro # Interval ns ne nlo nro # rest) =
            (if expr_lt ns ce \<or> (ns = ce \<and> \<not> (nlo \<and> cro))
             then merge_intervals
                    (Interval cs (if expr_lt ce ne then ne else ce)
                       (if cs = ns then clo \<and> nlo else clo)
                       (if ce = ne then cro \<and> nro else if expr_lt ce ne then nro else cro) # rest)
             else bind (merge_intervals (Interval ns ne nlo nro # rest))
                    (\<lambda>r. Inr (Interval cs ce clo cro # r))))"
proof -
  let ?c = "(cs, ce, clo, cro)" and ?n = "(ns, ne, nlo, nro)"
  from assms(3) have comp: "is_comparable cs" "is_comparable ce" "is_comparable ns" "is_comparable ne"
    by (simp_all add: is_comparable4_def)
  from assms(1) comp have c: "expr_lt cs ce" "cs = NegativeInfinity \<longrightarrow> clo" "ce = Infinity \<longrightarrow> cro"
    using expr_trichotomy[of cs ce] by (auto simp: Interval_new_fixed_iff)
  from assms(2) comp have n: "expr_lt ns ne" "ns = NegativeInfinity \<longrightarrow> nlo" "ne = Infinity \<longrightarrow> nro"
    using expr_trichotomy[of ns ne] by (auto simp: Interval_new_fixed_iff)
  have sm: "should_merge ?c ?n \<longleftrightarrow> expr_lt ns ce \<or> (ns = ce \<and> \<not> (nlo \<and> cro))"
    using assms(3) by (auto simp: should_merge_def)
  have ends: "(if expr_lt ce ne then nro else if expr_lt ne ce then cro else cro \<and> nro)
            = (if ce = ne then cro \<and> nro else if expr_lt ce ne then nro else cro)"
    using expr_trichotomy[OF comp(2) comp(4)] by (auto dest: expr_lt_asym)
  let ?end = "if expr_lt ce ne then ne else ce"
  have lt_end: "expr_lt cs ?end"
    using c(1) by (auto intro: expr_lt_trans)
  have flags: "cs = NegativeInfinity \<longrightarrow> (if cs = ns then clo \<and> nlo else clo)"
     "?end = Infinity \<longrightarrow> (if ce = ne then cro \<and> nro else if expr_lt ce ne then nro else cro)"
    using c n by (auto)
  have proper: "Interval_new cs ?end (if cs = ns then clo \<and> nlo else clo)
             (if ce = ne then cro \<and> nro else if expr_lt ce ne then nro else cro)
           = Inr (Interval cs ?end (if cs = ns then clo \<and> nlo else clo)
             (if ce = ne then cro \<and> nro else if expr_lt ce ne then nro else cro))"
  proof (rule Interval_new_proper)
    show "is_comparable ?end" using comp by simp
  qed (use comp lt_end flags in blast)+
  have "merged ?c ?n = Interval_new cs ?end (if cs = ns then clo \<and> nlo else clo)
             (if expr_lt ce ne then nro else if expr_lt ne ce then cro else cro \<and> nro)"
    by (simp add: merged_def Let_def)
  then have m: "merged ?c ?n = Inr (Interval cs ?end (if cs = ns then clo \<and> nlo else clo)
             (if ce = ne then cro \<and> nro else if expr_lt ce ne then nro else cro))"
    by (simp only: ends proper)
  have first: "Union_of [Interval cs ce clo cro, Interval ns ne nlo nro] =
          (if expr_lt ns ce \<or> (ns = ce \<and> \<not> (nlo \<and> cro))
           then Inr (Interval cs (if expr_lt ce ne then ne else ce)
                       (if cs = ns then clo \<and> nlo else clo)
                       (if ce = ne then cro \<and> nro else if expr_lt ce ne then nro else cro))
           else Inr (UnionSet [Interval cs ce clo cro, Interval ns ne nlo nro]))"
    by (simp only: Union_of_pair_sorted[OF assms(4)] sm m)
  have second: "expr_lt cs ns \<longrightarrow>
            Union_of [Interval ns ne nlo nro, Interval cs ce clo cro] =
            Union_of [Interval cs ce clo cro, Interval ns ne nlo nro]"
    using Union_of_pair_swap by simp
  have third: "\<forall>rest. merge_intervals (Interval cs ce clo cro # Interval ns ne nlo nro # rest) =
            (if expr_lt ns ce \<or> (ns = ce \<and> \<not> (nlo \<and> cro))
             then merge_intervals
                    (Interval cs (if expr_lt ce ne then ne else ce)
                       (if cs = ns then clo \<and> nlo else clo)
                       (if ce = ne then cro \<and> nro else if expr_lt ce ne then nro else cro) # rest)
             else bind (merge_intervals (Interval ns ne nlo nro # rest))
                    (\<lambda>r. Inr (Interval cs ce clo cro # r)))"
    by (simp only: merge_intervals_step sm m bind_Inr) blast
  from first second third show ?thesis by blast
qed



text \<open>
  Claim C2, witness: \<^verbatim>\<open>Union(Interval(0, 1), Interval(1, 2, False, True))\<close> touch at
  \<open>1\<close> with a closed side and merge into \<open>[0, 2)\<close>.
\<close>

theorem Union_merge_rule_witness:
  "Union_of [Interval (Number 0) (Number 1) False False, Interval (Number 1) (Number 2) False True]
     = Inr (Interval (Number 0) (Number 2) False True)"
proof -
  have a: "Interval_new (Number 0) (Number 1) False False
             = Inr (Interval (Number 0) (Number 1) False False)"
    by (simp add: Interval_new_def)
  have b: "Interval_new (Number 1) (Number 2) False True
             = Inr (Interval (Number 1) (Number 2) False True)"
    by (simp add: Interval_new_def)
  have c: "is_comparable4 (Number 0) (Number 1) (Number 1) (Number 2)"
    by (simp add: is_comparable4_def)
  have d: "\<not> expr_lt (Number 1) (Number 0)"
    by simp
  from Union_merge_rule [OF a b c d] show ?thesis
    by simp
qed

section \<open>Intersection of a finite set with another kind of set\<close>

lemma sequence_Inr_iff: "(\<exists>vs. sequence rs = Inr vs) \<longleftrightarrow> (\<forall>r\<in>set rs. \<exists>v. r = Inr v)"
  by (induction rs) (auto split: sum.splits)

lemma contains_total_uniform: "contains s x = Inr t \<Longrightarrow> \<exists>t'. contains s y = Inr t'"
proof (induction s arbitrary: t)
  case (UnionSet cs)
  from UnionSet.prems have "\<exists>vs. sequence (map (\<lambda>c. contains c x) cs) = Inr vs"
    by (auto split: sum.splits)
  then have "\<forall>c\<in>set cs. \<exists>v. contains c x = Inr v"
    by (auto simp: sequence_Inr_iff)
  with UnionSet.IH have "\<forall>c\<in>set cs. \<exists>v. contains c y = Inr v"
    by blast
  then have "\<exists>vs. sequence (map (\<lambda>c. contains c y) cs) = Inr vs"
    by (auto simp: sequence_Inr_iff)
  then show ?case by auto
qed (auto simp: Let_def)

lemma filter_result_all_ok:
  "\<forall>x\<in>set xs. \<exists>b. p x = Inr b \<Longrightarrow> filter_result p xs = Inr (filter (\<lambda>x. p x = Inr True) xs)"
  by (induction xs) auto

lemma filter_result_error:
  "\<forall>x\<in>set xs. p x = Inl E \<or> (\<exists>b. p x = Inr b) \<Longrightarrow> \<exists>x\<in>set xs. p x = Inl E \<Longrightarrow>
   filter_result p xs = Inl E"
proof (induction xs)
  case Nil
  then show ?case by simp
next
  case (Cons a xs)
  show ?case
  proof (cases "p a")
    case (Inl e)
    with Cons.prems(1) show ?thesis by auto
  next
    case (Inr b)
    with Cons.prems have "\<exists>x\<in>set xs. p x = Inl E" by auto
    with Cons have "filter_result p xs = Inl E" by simp
    with Inr show ?thesis by simp
  qed
qed

lemma intersect_finite: "elements f = Some els \<Longrightarrow> intersect f s = finite_intersect els s"
  by (cases f) auto

text \<open>
  Claim C10. Let \<open>f\<close> be a finite set (\<open>FiniteSet\<close> or \<open>SingletonSet\<close>) with elements
  \<open>els\<close> and \<open>s\<close> a set that is not one. \<open>f.intersect(s)\<close> filters \<open>els\<close> with the
  boolean-enforcing \<^verbatim>\<open>in\<close> on \<open>s\<close>: when every test gives a boolean the result is the
  finite set of the elements that tested \<open>True\<close>, and when the containment of some element
  in \<open>s\<close> stays unresolved the intersection fails with \<open>TypeError\<close>.
\<close>

theorem FiniteSet_intersect_filters:
  assumes "elements f = Some els" and "elements s = None"
  shows "((\<forall>el\<in>set els. \<exists>b. in_op el s = Inr b) \<longrightarrow>
           intersect f s = Inr (FiniteSet_new (OneIterable (filter (\<lambda>el. in_op el s = Inr True) els))))
       \<and> ((\<exists>el\<in>set els. contains s el = Inr Unresolved) \<longrightarrow> intersect f s = Inl TypeError)"
proof (intro conjI impI)
  assume "\<forall>el\<in>set els. \<exists>b. in_op el s = Inr b"
  then show "intersect f s = Inr (FiniteSet_new (OneIterable (filter (\<lambda>el. in_op el s = Inr True) els)))"
    using assms by (simp add: intersect_finite finite_intersect_def filter_result_all_ok)
next
  assume "\<exists>el\<in>set els. contains s el = Inr Unresolved"
  then obtain el where el: "el \<in> set els" "contains s el = Inr Unresolved"
    by blast
  have "\<forall>x. \<exists>t. contains s x = Inr t"
    using contains_total_uniform[OF el(2)] by blast
  then have "in_op x s = Inl TypeError \<or> (\<exists>b. in_op x s = Inr b)" for x
  proof -
    assume "\<forall>x. \<exists>t. contains s x = Inr t"
    then obtain t where "contains s x = Inr t" by blast
    then show ?thesis by (cases t) (auto simp: in_op_def)
  qed
  then have "\<forall>x\<in>set els. in_op x s = Inl TypeError \<or> (\<exists>b. in_op x s = Inr b)"
    by blast
  moreover have "\<exists>x\<in>set els. in_op x s = Inl TypeError"
    using el by (auto simp: in_op_def intro!: bexI[of _ el])
  ultimately have "filter_result (\<lambda>el. in_op el s) els = Inl TypeError"
    by (rule filter_result_error)
  then show "intersect f s = Inl TypeError"
    using assms by (simp add: intersect_finite finite_intersect_def)
qed

text \<open>
  Claim C10, witness: \<^verbatim>\<open>FiniteSet(1, 2).intersect(Interval(0, y))\<close> for a real symbol
  \<open>y\<close> raises \<open>TypeError\<close>, and \<^verbatim>\<open>FiniteSet(1, 2).intersect(Interval(0, 1))\<close> is
  \<open>{1}\<close>.
\<close>

theorem FiniteSet_intersect_filters_witness:
  "intersect (FiniteSet [Number 1, Number 2]) (Interval (Number 0) (Symbol ''y'' True) False False)
     = Inl TypeError
 \<and> intersect (FiniteSet [Number 1, Number 2]) (Interval (Number 0) (Number 1) False False)
     = Inr (SingletonSet (Number 1))"
proof -
  let ?f = "FiniteSet [Number 1, Number 2]"
  let ?s = "Interval (Number 0) (Symbol ''y'' True) False False"
  let ?t = "Interval (Number 0) (Number 1) False False"
  have f: "elements ?f = Some [Number 1, Number 2]"
    by simp
  have s: "elements ?s = None" and t: "elements ?t = None"
    by simp_all
  have "contains ?s (Number 1) = Inr Unresolved"
    by (simp add: rel_ge_def rel_le_def)
  then have unresolved: "\<exists>el\<in>set [Number 1, Number 2]. contains ?s el = Inr Unresolved"
    by (intro bexI [of _ "Number 1"]) simp_all
  have first: "intersect ?f ?s = Inl TypeError"
    by (rule FiniteSet_intersect_filters [OF f s, THEN conjunct2, THEN mp, OF unresolved])
  have t1: "in_op (Number 1) ?t = Inr True" and t2: "in_op (Number 2) ?t = Inr False"
    by (simp_all add: in_op_def rel_ge_def rel_le_def)
  then have booleans: "\<forall>el\<in>set [Number 1, Number 2]. \<exists>b. in_op el ?t = Inr b"
    by auto
  have "intersect ?f ?t = Inr (FiniteSet_new (OneIterable
          (filter (\<lambda>el. in_op el ?t = Inr True) [Number 1, Number 2])))"
    by (rule FiniteSet_intersect_filters [OF f t, THEN conjunct1, THEN mp, OF booleans])
  then have second: "intersect ?f ?t = Inr (SingletonSet (Number 1))"
    by (simp add: t1 t2 FiniteSet_new_def SingletonSet_new_def)
  from first second show ?thesis by simp
qed

section \<open>Set difference\<close>

text \<open>
  Claim C5, counterexample: for a real symbol \<open>x\<close>, \<^verbatim>\<open>FiniteSet(x, 2) - FiniteSet(1)\<close>
  returns \<open>{x, 2}\<close>, while \<^verbatim>\<open>FiniteSet(x, 2).intersect(FiniteSet(1).complement)\<close>
  fails with \<open>TypeError\<close>: the overriding \<^verbatim>\<open>FiniteSet.__sub__\<close> never asks whether
  \<open>x\<close> lies in an interval.
\<close>

theorem sub_FiniteSet_counterexample:
  "sub (FiniteSet_new (Positional [Symbol ''x'' True, Number 2]))
       (FiniteSet_new (Positional [Number 1]))
     = Inr (FiniteSet [Symbol ''x'' True, Number 2])
 \<and> bind (complement (FiniteSet_new (Positional [Number 1])))
         (intersect (FiniteSet_new (Positional [Symbol ''x'' True, Number 2])))
     = Inl TypeError"
  by code_simp

text \<open>
  Claim C5, amended. For a left operand that is not a finite set, the binary \<^verbatim>\<open>-\<close>
  computes exactly \<open>a.intersect(b.complement)\<close>: the same result and the same failure.
  For a finite set on the left it does not: when every test \<^verbatim>\<open>el in b\<close> gives a boolean,
  the difference is the finite set of the elements of \<open>a\<close> that tested \<open>False\<close>, and the
  complement of \<open>b\<close> is never taken.
\<close>

theorem sub_dispatch:
  "(elements a = None \<longrightarrow> sub a b = bind (complement b) (intersect a))
 \<and> (\<forall>els. elements a = Some els \<and> (\<forall>el\<in>set els. \<exists>m. in_op el b = Inr m) \<longrightarrow>
      sub a b = Inr (FiniteSet_new (OneIterable (filter (\<lambda>el. in_op el b = Inr False) els))))"
proof (intro conjI impI allI)
  assume "elements a = None"
  then show "sub a b = bind (complement b) (intersect a)"
    by (simp add: sub_def)
next
  fix els
  assume h: "elements a = Some els \<and> (\<forall>el\<in>set els. \<exists>m. in_op el b = Inr m)"
  then have "\<forall>el\<in>set els. \<exists>m. bind (in_op el b) (\<lambda>m. Inr (\<not> m)) = Inr m"
    by (auto simp: bind_def)
  then have "filter_result (\<lambda>el. bind (in_op el b) (\<lambda>m. Inr (\<not> m))) els
     = Inr (filter (\<lambda>el. bind (in_op el b) (\<lambda>m. Inr (\<not> m)) = Inr True) els)"
    by (rule filter_result_all_ok)
  moreover have "filter (\<lambda>el. bind (in_op el b) (\<lambda>m. Inr (\<not> m)) = Inr True) els
      = filter (\<lambda>el. in_op el b = Inr False) els"
    using h by (intro filter_cong) (auto simp: bind_def)
  ultimately show "sub a b = Inr (FiniteSet_new (OneIterable (filter (\<lambda>el. in_op el b = Inr False) els)))"
    using h by (simp add: sub_def bind_def)
qed

text \<open>
  Claim C5, amended, witness: \<^verbatim>\<open>Interval(0, 2) - Interval(0, 1)\<close> is the intersection
  with the complement, \<open>(1, 2]\<close>; \<^verbatim>\<open>FiniteSet(x, 2) - FiniteSet(1)\<close> keeps both elements.
\<close>

theorem sub_dispatch_witness:
  "sub (Interval (Number 0) (Number 2) False False) (Interval (Number 0) (Number 1) False False)
     = Inr (Interval (Number 1) (Number 2) True False)
 \<and> sub (FiniteSet [Symbol ''x'' True, Number 2]) (SingletonSet (Number 1))
     = Inr (FiniteSet [Symbol ''x'' True, Number 2])"
proof -
  let ?a = "Interval (Number 0) (Number 2) False False"
  let ?b = "Interval (Number 0) (Number 1) False False"
  let ?f = "FiniteSet [Symbol ''x'' True, Number 2]"
  let ?g = "SingletonSet (Number 1)"
  have "elements ?a = None"
    by simp
  with sub_dispatch [of ?a ?b] have "sub ?a ?b = bind (complement ?b) (intersect ?a)"
    by blast
  also have "\<dots> = Inr (Interval (Number 1) (Number 2) True False)"
    by code_simp
  finally have first: "sub ?a ?b = Inr (Interval (Number 1) (Number 2) True False)" .
  have "elements ?f = Some [Symbol ''x'' True, Number 2]
      \<and> (\<forall>el\<in>set [Symbol ''x'' True, Number 2]. \<exists>m. in_op el ?g = Inr m)"
    by (simp add: in_op_def)
  with sub_dispatch [of ?f ?g]
  have "sub ?f ?g = Inr (FiniteSet_new (OneIterable
          (filter (\<lambda>el. in_op el ?g = Inr False) [Symbol ''x'' True, Number 2])))"
    by blast
  then have second: "sub ?f ?g = Inr (FiniteSet [Symbol ''x'' True, Number 2])"
    by (simp add: in_op_def FiniteSet_new_def)
  from first second show ?thesis by simp
qed

section \<open>Where the code departs from its intent\<close>

text \<open>
  Claim C1: \<^verbatim>\<open>Interval(1, 2, False, True) + FiniteSet(2, 3)\<close>. The right boundary \<open>2\<close>
  is open and lies in the finite set, so it is closed; but the new interval is built with
  \<^verbatim>\<open>not closeLeft\<close> as its left flag, and the closed left boundary \<open>1\<close> comes out open.
\<close>

theorem Union_closing_opens_other_boundary:
  "bind (Interval_new (Number 1) (Number 2) False True)
        (\<lambda>i. Union_of [i, FiniteSet_new (Positional [Number 2, Number 3])])
     = Inr (UnionSet [Interval (Number 1) (Number 2) True False, SingletonSet (Number 3)])"
  by code_simp

text \<open>
  Claim C1, witness: the result is not the Union of \<open>[1, 2]\<close> and \<open>{3}\<close> that
  the claim describes.
\<close>

theorem Union_closing_opens_other_boundary_witness:
  "bind (Interval_new (Number 1) (Number 2) False True)
        (\<lambda>i. Union_of [i, FiniteSet_new (Positional [Number 2, Number 3])])
     \<noteq> Inr (UnionSet [Interval (Number 1) (Number 2) False False, SingletonSet (Number 3)])"
  using Union_closing_opens_other_boundary by simp

text \<open>
  Claim C3: \<^verbatim>\<open>FiniteSet(1, 1)\<close>. The test for a single numeric argument looks at the
  length of the argument list before duplicates are dropped, so the result is a
  \<open>FiniteSet\<close> whose element collection is the single number \<open>1\<close>, not a \<open>SingletonSet\<close>;
  the same elements handed over as a frozenset do collapse.
\<close>

theorem FiniteSet_duplicates_not_singleton:
  "FiniteSet_new (Positional [Number 1, Number 1]) = FiniteSet [Number 1]
 \<and> FiniteSet_new (OneIterable (remdups [Number 1, Number 1])) = SingletonSet (Number 1)"
  by code_simp

text \<open>
  For a single interval with comparable end points the complement of the complement is the
  interval itself; the double complement goes wrong only through Unions.
\<close>

lemma Union_of_single: "Union_of [Interval s e lo ro] = Inr (Interval s e lo ro)"
  by (simp add: Union_of_def Union_new_def bind_def sort_intervals_def start_key_def sort_by_key_def
        absorb_finite_sets_def)

lemma Union_of_Empty_left: "Union_of [EmptySet, t] = Union_of [t]"
  by (simp add: Union_of_def Union_new_def)

lemma Union_of_Empty_right: "Union_of [Interval s e lo ro, EmptySet] = Union_of [Interval s e lo ro]"
  by (simp add: Union_of_def Union_new_def)

lemma Union_of_Empty_Empty: "Union_of [EmptySet] = Inr EmptySet"
  by (simp add: Union_of_def Union_new_def bind_def)

lemma complement_twice_Interval:
  assumes "Interval_new s e lo ro = Inr (Interval s e lo ro)"
    and "is_comparable s" and "is_comparable e"
  shows "bind (complement (Interval s e lo ro)) complement = Inr (Interval s e lo ro)"
proof -
  from assms have lt: "expr_lt s e" and inf: "s = NegativeInfinity \<longrightarrow> lo" "e = Infinity \<longrightarrow> ro"
    using expr_trichotomy[of s e] by (auto simp: Interval_new_fixed_iff)
  consider (both) "s = NegativeInfinity" "e = Infinity"
    | (left) "s = NegativeInfinity" "e \<noteq> Infinity"
    | (right) "s \<noteq> NegativeInfinity" "e = Infinity"
    | (none) "s \<noteq> NegativeInfinity" "e \<noteq> Infinity"
    by blast
  then show ?thesis
  proof cases
    case both
    with inf show ?thesis
      by (simp add: bind_def Interval_new_def Union_of_Empty_left Union_of_Empty_Empty)
  next
    case left
    with lt assms(3) inf obtain r where e: "e = Number r" by (cases e) auto
    with left inf show ?thesis
      by (simp add: bind_def Interval_new_def SingletonSet_new_def Union_of_Empty_left Union_of_Empty_right Union_of_single)
  next
    case right
    with lt assms(2) inf obtain r where s: "s = Number r" by (cases s) auto
    with right inf show ?thesis
      by (simp add: bind_def Interval_new_def SingletonSet_new_def Union_of_Empty_left Union_of_Empty_right Union_of_single)
  next
    case none
    with lt assms(2,3) obtain a b where ab: "s = Number a" "e = Number b" "a < b"
      by (cases s; cases e) auto
    then have c1: "complement (Interval s e lo ro) =
        Inr (UnionSet [Interval NegativeInfinity s True (\<not> lo), Interval e Infinity (\<not> ro) True])"
      by (simp add: bind_def Interval_new_def Union_of_pair_sorted should_merge_def is_comparable4_def)
    have c2: "complement (Interval NegativeInfinity s True (\<not> lo)) = Inr (Interval s Infinity lo True)"
      using ab by (simp add: bind_def Interval_new_def Union_of_Empty_left Union_of_single)
    have c3: "complement (Interval e Infinity (\<not> ro) True) = Inr (Interval NegativeInfinity e True ro)"
      using ab by (simp add: bind_def Interval_new_def Union_of_Empty_right Union_of_single)
    have c4: "intersect (Interval s Infinity lo True) (Interval NegativeInfinity e True ro)
        = Inr (Interval s e lo ro)"
      using ab by (simp add: intersect.simps interval_intersect_def is_comparable4_def Interval_new_def Let_def)
    have "complement (UnionSet [Interval NegativeInfinity s True (\<not> lo), Interval e Infinity (\<not> ro) True])
        = Inr (Interval s e lo ro)"
      by (simp only: complement.simps(8) fold.simps c2 c3 c4 sum.case o_apply id_apply)
    then show ?thesis
      by (simp only: c1 bind_Inr)
  qed
qed

text \<open>
  Claim C6: \<^verbatim>\<open>Union(Interval(0, 1, True, True), Interval(1, 2, True, True), Interval(1, 3))\<close>.
  The single merge pass leaves \<open>(0, 1)\<close> and \<open>[1, 3]\<close> side by side; the complement of the
  complement of this Union is the interval \<open>(0, 3]\<close>, which \<^verbatim>\<open>==\<close> does not identify
  with it.
\<close>

theorem complement_twice_differs:
  "bind (Union_of [Interval (Number 0) (Number 1) True True,
                   Interval (Number 1) (Number 2) True True,
                   Interval (Number 1) (Number 3) False False])
     (\<lambda>s. bind (complement s) (\<lambda>c. bind (complement c) (\<lambda>cc. Inr (s, cc, set_eq cc s))))
   = Inr (UnionSet [Interval (Number 0) (Number 1) True True,
                    Interval (Number 1) (Number 3) False False],
          Interval (Number 0) (Number 3) True False,
          False)"
  by code_simp

text \<open>
  Claim C8: \<^verbatim>\<open>FiniteSet(x, 1).complement\<close> for a symbol \<open>x\<close>. The \<^verbatim>\<open>raise\<close> statement
  misspells the exception class, so the failure is a \<open>NameError\<close>.
\<close>

theorem FiniteSet_complement_NameError:
  "complement (FiniteSet_new (Positional [Symbol ''x'' True, Number 1])) = Inl NameError"
  by code_simp

text \<open>
  Claim C9: \<open>a = Union((0, 1), (1, 2))\<close> and \<open>b = FiniteSet(1)\<close>. \<open>Union(a, b)\<close> closes both
  intervals at \<open>1\<close> after the merge pass has run, and returns \<open>Union((0, 1], [1, 2))\<close>;
  constructing the Union of that once more merges the two into \<open>(0, 2)\<close>.
\<close>

theorem Union_not_idempotent:
  "bind (Union_of [Interval (Number 0) (Number 1) True True,
                   Interval (Number 1) (Number 2) True True])
     (\<lambda>a. bind (Union_of [a, FiniteSet_new (Positional [Number 1])])
     (\<lambda>u. bind (Union_of [u])
     (\<lambda>uu. Inr (a, u, uu, set_eq uu u))))
   = Inr (UnionSet [Interval (Number 0) (Number 1) True True,
                    Interval (Number 1) (Number 2) True True],
          UnionSet [Interval (Number 0) (Number 1) True False,
                    Interval (Number 1) (Number 2) False True],
          Interval (Number 0) (Number 2) True True,
          False)"
  by code_simp

section \<open>Subsets and membership\<close>

text \<open>
  Claim C4, counterexample: \<^verbatim>\<open>Interval(0, 2).subset(Interval(0, 1))\<close> is \<open>True\<close>, since
  \<open>subset\<close> tests whether its argument is a subset of the receiver; \<open>2\<close> is in
  \<open>[0, 2]\<close> and not in \<open>[0, 1]\<close>.
\<close>

theorem subset_direction_counterexample:
  "subset (Interval (Number 0) (Number 2) False False)
          (SetObj (Interval (Number 0) (Number 1) False False)) = Inr True
 \<and> in_op (Number 2) (Interval (Number 0) (Number 2) False False) = Inr True
 \<and> in_op (Number 2) (Interval (Number 0) (Number 1) False False) = Inr False"
  by code_simp

text \<open>
  The rest of this section proves the implication in the direction that holds, for
  elements that are comparable. Its core is that no operation of the module invents
  members: a comparable value that lies in the result of a constructor or of an
  intersection lies in an operand.
\<close>

subsection \<open>The value order as a linear order\<close>

lemma expr_lt_key: "is_comparable a \<Longrightarrow> is_comparable b \<Longrightarrow> expr_lt a b \<longleftrightarrow> key a < key b"
  by (cases a; cases b) auto

lemma expr_le_key: "is_comparable a \<Longrightarrow> is_comparable b \<Longrightarrow> expr_le a b \<longleftrightarrow> key a \<le> key b"
  by (cases a; cases b) auto

lemma key_eq_iff: "is_comparable a \<Longrightarrow> is_comparable b \<Longrightarrow> key a = key b \<longleftrightarrow> a = b"
  by (cases a; cases b) auto

lemma merged_cover:
  fixes cs ce ns ne x :: "'a::linorder"
  assumes "cs < ce" "ns < ne" "ns < ce \<or> (ns = ce \<and> \<not> (nlo \<and> cro))"
    and "if (if cs = ns then clo \<and> nlo else clo) then cs < x else cs \<le> x"
    and "if (if ce < ne then nro else if ne < ce then cro else cro \<and> nro)
         then x < (if ce < ne then ne else ce) else x \<le> (if ce < ne then ne else ce)"
  shows "((if clo then cs < x else cs \<le> x) \<and> (if cro then x < ce else x \<le> ce))
       \<or> ((if nlo then ns < x else ns \<le> x) \<and> (if nro then x < ne else x \<le> ne))"
  using assms by (cases clo; cases cro; cases nlo; cases nro; simp split: if_splits; force)

lemma intersect_within:
  fixes ss se os oe x :: "'a::linorder"
  assumes "if (if ss < os then olo else if os < ss then slo else slo \<or> olo)
           then (if ss < os then os else ss) < x else (if ss < os then os else ss) \<le> x"
    and "if (if se < oe then sro else if oe < se then oro else sro \<or> oro)
         then x < (if se < oe then se else if oe < se then oe else se)
         else x \<le> (if se < oe then se else if oe < se then oe else se)"
  shows "((if slo then ss < x else ss \<le> x) \<and> (if sro then x < se else x \<le> se))
       \<and> ((if olo then os < x else os \<le> x) \<and> (if oro then x < oe else x \<le> oe))"
  using assms by (cases slo; cases sro; cases olo; cases oro; simp split: if_splits; force)

subsection \<open>Membership in intervals\<close>

lemma inside_iff:
  "inside x (s, e, lo, ro) \<longleftrightarrow>
     is_comparable x \<and> is_comparable s \<and> is_comparable e \<and>
     (if lo then key s < key x else key s \<le> key x) \<and>
     (if ro then key x < key e else key x \<le> key e)"
  by (simp add: inside_def)

lemma And_True_iff: "And p q = PyBool True \<longleftrightarrow> p = PyBool True \<and> q = PyBool True"
  by (cases "(p, q)" rule: And.cases) auto

text \<open>On comparable operands a relation is decided by the order.\<close>

lemma rel_comparable:
  assumes "is_comparable a" and "is_comparable b"
  shows "rel_lt a b = PyBool (key a < key b)" and "rel_le a b = PyBool (key a \<le> key b)"
    and "rel_gt b a = PyBool (key a < key b)" and "rel_ge b a = PyBool (key a \<le> key b)"
  using assms by (simp_all add: rel_gt_def rel_ge_def rel_lt_def rel_le_def expr_lt_key expr_le_key)

text \<open>A relation between a comparable value and a symbol is decided only when the
  comparable value is an infinity, and is \<open>True\<close> only on the side where the infinity
  bounds every real number.\<close>

lemma rel_below_True:
  assumes "is_comparable x"
  shows "rel_lt s x = PyBool True \<Longrightarrow> (is_comparable s \<and> key s < key x) \<or> x = Infinity"
    and "rel_le s x = PyBool True \<Longrightarrow> (is_comparable s \<and> key s \<le> key x) \<or> x = Infinity"
  using assms
  by (cases s; cases x; simp add: rel_lt_def rel_le_def split: if_splits)+

lemma rel_above_True:
  assumes "is_comparable x"
  shows "rel_lt x e = PyBool True \<Longrightarrow> (is_comparable e \<and> key x < key e) \<or> x = NegativeInfinity"
    and "rel_le x e = PyBool True \<Longrightarrow> (is_comparable e \<and> key x \<le> key e) \<or> x = NegativeInfinity"
  using assms
  by (cases e; cases x; simp add: rel_lt_def rel_le_def split: if_splits)+

lemma rel_at_infinity:
  "rel_lt Infinity e \<noteq> PyBool True" "rel_le Infinity e = PyBool True \<Longrightarrow> e = Infinity"
  "rel_lt s NegativeInfinity \<noteq> PyBool True" "rel_le s NegativeInfinity = PyBool True \<Longrightarrow> s = NegativeInfinity"
  by (cases e; cases s; simp add: rel_lt_def rel_le_def split: if_splits)+

lemma inside_in_leaf: "inside x (s, e, lo, ro) \<Longrightarrow> in_leaf x (Interval s e lo ro)"
  by (cases lo; cases ro) (auto simp: inside_iff rel_comparable)

text \<open>Conversely, for a comparable \<open>x\<close> and an interval that is open at its infinite ends
  (as every constructed interval is), containment means that the end points are
  comparable and \<open>x\<close> lies between them.\<close>

lemma in_leaf_inside:
  assumes "is_comparable x" and "proper (Interval s e lo ro)" and "in_leaf x (Interval s e lo ro)"
  shows "inside x (s, e, lo, ro)"
proof -
  let ?l = "if lo then rel_gt x s else rel_ge x s"
  let ?r = "if ro then rel_lt x e else rel_le x e"
  from assms(3) have "And ?l ?r = PyBool True"
    by (cases ro) (simp_all add: Let_def)
  then have l: "?l = PyBool True" and r: "?r = PyBool True"
    by (simp_all add: And_True_iff)
  from assms(2) have ends: "s = NegativeInfinity \<longrightarrow> lo" "e = Infinity \<longrightarrow> ro"
    by simp_all
  have left: "(is_comparable s \<and> (if lo then key s < key x else key s \<le> key x)) \<or> x = Infinity"
    using l rel_below_True[OF assms(1), of s] by (cases lo) (auto simp: rel_gt_def rel_ge_def)
  have right: "(is_comparable e \<and> (if ro then key x < key e else key x \<le> key e)) \<or> x = NegativeInfinity"
    using r rel_above_True[OF assms(1), of e] by (cases ro) (auto simp: rel_gt_def rel_ge_def)
  have not_top: "x \<noteq> Infinity"
    using r ends(2) rel_at_infinity(1,2)[of e] by (cases ro) auto
  have not_bottom: "x \<noteq> NegativeInfinity"
    using l ends(1) rel_at_infinity(3,4)[of s] by (cases lo) (auto simp: rel_gt_def rel_ge_def)
  from left right not_top not_bottom assms(1) show ?thesis
    by (simp add: inside_iff)
qed

lemma in_leaf_simple:
  "\<not> in_leaf x EmptySet" "\<not> in_leaf x AbstractSet" "\<not> in_leaf x DiscreteSet"
  "in_leaf x (SingletonSet v) \<longleftrightarrow> x = v" "in_leaf x (FiniteSet els) \<longleftrightarrow> x \<in> set els"
  by simp_all

lemma in_leaf_UnionSet: "in_leaf x (UnionSet cs) \<longleftrightarrow> (\<exists>c\<in>set cs. in_leaf x c)"
  by simp

declare in_leaf.simps [simp del]

subsection \<open>The Interval constructor, interval intersection and the merge add no point\<close>

lemma Interval_new_shape:
  assumes "Interval_new s e lo ro = Inr r"
  shows "r = EmptySet \<or> (r = SingletonSet e \<and> s = e \<and> \<not> lo \<and> \<not> ro)
       \<or> (\<exists>lo' ro'. r = Interval s e lo' ro' \<and> (lo \<longrightarrow> lo') \<and> (ro \<longrightarrow> ro') \<and> s \<noteq> e
             \<and> \<not> (is_comparable e \<and> is_comparable s \<and> expr_lt e s)
             \<and> (s = NegativeInfinity \<longrightarrow> lo') \<and> (e = Infinity \<longrightarrow> ro'))"
  using assms unfolding Interval_new_def SingletonSet_new_def Let_def
  by (auto split: if_splits)

lemma Interval_new_cases:
  assumes "Interval_new s e lo ro = Inr r"
  shows "r = EmptySet \<or> (r = SingletonSet e \<and> s = e \<and> \<not> lo \<and> \<not> ro)
       \<or> (\<exists>lo' ro'. r = Interval s e lo' ro' \<and> (lo \<longrightarrow> lo') \<and> (ro \<longrightarrow> ro') \<and> proper r)"
proof -
  from Interval_new_shape[OF assms] consider
      "r = EmptySet"
    | "r = SingletonSet e \<and> s = e \<and> \<not> lo \<and> \<not> ro"
    | lo' ro' where "r = Interval s e lo' ro'" "lo \<longrightarrow> lo'" "ro \<longrightarrow> ro'" "s \<noteq> e"
        "\<not> (is_comparable e \<and> is_comparable s \<and> expr_lt e s)"
        "s = NegativeInfinity \<longrightarrow> lo'" "e = Infinity \<longrightarrow> ro'"
    by blast
  then show ?thesis
  proof cases
    case 3
    have "expr_lt s e" if "is_comparable s" "is_comparable e"
      using that 3(4,5) expr_trichotomy[of s e] by blast
    with 3 have "proper r" by simp
    with 3 show ?thesis by blast
  qed blast+
qed

lemma Interval_new_lt:
  "is_comparable s \<Longrightarrow> is_comparable e \<Longrightarrow> expr_lt s e \<Longrightarrow>
   Interval_new s e lo ro = Inr (Interval s e (if s = NegativeInfinity then True else lo)
                                   (if e = Infinity then True else ro))"
  by (auto simp: Interval_new_def comparable_is_real dest: expr_lt_asym)

lemma Interval_new_proper_result: "Interval_new s e lo ro = Inr r \<Longrightarrow> proper r"
  using Interval_new_cases[of s e lo ro r] by auto

lemma inside_weaken:
  "inside x (s, e, lo', ro') \<Longrightarrow> (lo \<longrightarrow> lo') \<Longrightarrow> (ro \<longrightarrow> ro') \<Longrightarrow> inside x (s, e, lo, ro)"
  by (cases lo; cases ro; cases lo'; cases ro') (auto simp: inside_iff)

lemma Interval_new_sound:
  assumes "Interval_new s e lo ro = Inr r" and "in_leaf x r"
    and "s \<noteq> e \<or> (is_comparable s \<and> is_comparable e)"
    and cx: "is_comparable x"
  shows "inside x (s, e, lo, ro)"
proof -
  from Interval_new_cases[OF assms(1)] consider
      "r = EmptySet"
    | "r = SingletonSet e" "s = e" "\<not> lo" "\<not> ro"
    | lo' ro' where "r = Interval s e lo' ro'" "lo \<longrightarrow> lo'" "ro \<longrightarrow> ro'" "proper r"
    by blast
  then show ?thesis
  proof cases
    case 1
    with assms(2) show ?thesis by (simp add: in_leaf_simple)
  next
    case 2
    with assms(2,3) show ?thesis by (simp add: in_leaf_simple inside_iff)
  next
    case 3
    with assms(2) cx have "inside x (s, e, lo', ro')" by (blast intro: in_leaf_inside)
    with 3 show ?thesis by (blast intro: inside_weaken)
  qed
qed

lemma interval_intersect_sound:
  assumes "interval_intersect (ss, se, slo, sro) (os, oe, olo, oro) = Inr r" and "in_leaf x r"
    and cx: "is_comparable x"
  shows "inside x (ss, se, slo, sro) \<and> inside x (os, oe, olo, oro)"
proof -
  from assms(1) have c4: "is_comparable4 ss se os oe"
    by (simp add: interval_intersect_def split: if_splits)
  then have comp: "is_comparable ss" "is_comparable se" "is_comparable os" "is_comparable oe"
    by (simp_all add: is_comparable4_def)
  let ?start = "if expr_lt ss os then os else if expr_lt os ss then ss else ss"
  let ?lo = "if expr_lt ss os then olo else if expr_lt os ss then slo else slo \<or> olo"
  let ?end = "if expr_lt se oe then se else if expr_lt oe se then oe else se"
  let ?ro = "if expr_lt se oe then sro else if expr_lt oe se then oro else sro \<or> oro"
  have "r \<noteq> EmptySet"
    using assms(2) by (auto simp: in_leaf_simple)
  with assms(1) c4 have new: "Interval_new ?start ?end ?lo ?ro = Inr r"
    by (simp add: interval_intersect_def Let_def split: if_splits)
  have ce: "is_comparable ?start" "is_comparable ?end"
    using comp by simp_all
  with new assms(2) cx have "inside x (?start, ?end, ?lo, ?ro)"
    by (intro Interval_new_sound) blast+
  then have "is_comparable x \<and> is_comparable ?start \<and> is_comparable ?end
      \<and> (if ?lo then key ?start < key x else key ?start \<le> key x)
      \<and> (if ?ro then key x < key ?end else key x \<le> key ?end)"
    by (rule iffD1 [OF inside_iff])
  then have x: "is_comparable x"
    and l: "if ?lo then key ?start < key x else key ?start \<le> key x"
    and r: "if ?ro then key x < key ?end else key x \<le> key ?end"
    by blast+
  have start: "key ?start = (if key ss < key os then key os else key ss)"
    using comp by (simp add: expr_lt_key)
  have "end": "key ?end = (if key se < key oe then key se else if key oe < key se then key oe else key se)"
    using comp by (simp add: expr_lt_key)
  have lo: "?lo = (if key ss < key os then olo else if key os < key ss then slo else slo \<or> olo)"
    using comp by (simp add: expr_lt_key)
  have ro: "?ro = (if key se < key oe then sro else if key oe < key se then oro else sro \<or> oro)"
    using comp by (simp add: expr_lt_key)
  from l r have
    "((if slo then key ss < key x else key ss \<le> key x) \<and> (if sro then key x < key se else key x \<le> key se))
   \<and> ((if olo then key os < key x else key os \<le> key x) \<and> (if oro then key x < key oe else key x \<le> key oe))"
    unfolding start "end" lo ro by (rule intersect_within)
  with x comp show ?thesis
    by (simp only: inside_iff simp_thms)
qed

lemma merged_sound:
  assumes "should_merge (cs, ce, clo, cro) (ns, ne, nlo, nro)"
    and "merged (cs, ce, clo, cro) (ns, ne, nlo, nro) = Inr m"
    and "proper (Interval cs ce clo cro)" and "proper (Interval ns ne nlo nro)"
    and cx: "is_comparable x"
  shows "(\<exists>s e lo ro. m = Interval s e lo ro) \<and> proper m
       \<and> (in_leaf x m \<longrightarrow> inside x (cs, ce, clo, cro) \<or> inside x (ns, ne, nlo, nro))"
proof -
  from assms(1) have c4: "is_comparable4 cs ce ns ne"
    by (simp add: should_merge_def split: if_splits)
  then have comp: "is_comparable cs" "is_comparable ce" "is_comparable ns" "is_comparable ne"
    by (simp_all add: is_comparable4_def)
  from assms(1) c4 have "expr_lt ns ce \<or> (ns = ce \<and> \<not> (nlo \<and> cro))"
    by (simp add: should_merge_def split: if_splits)
  with comp have touch: "key ns < key ce \<or> (key ns = key ce \<and> \<not> (nlo \<and> cro))"
    by (auto simp: expr_lt_key)
  from assms(3,4) comp have wf: "key cs < key ce" "key ns < key ne"
    by (simp_all add: expr_lt_key)
  let ?lo = "if cs = ns then clo \<and> nlo else clo"
  let ?ro = "if expr_lt ce ne then nro else if expr_lt ne ce then cro else cro \<and> nro"
  let ?end = "if expr_lt ce ne then ne else if expr_lt ne ce then ce else ce"
  from assms(2) have new: "Interval_new cs ?end ?lo ?ro = Inr m"
    by (simp add: merged_def Let_def)
  have e: "is_comparable ?end"
    using comp by simp
  have "end": "key ?end = (if key ce < key ne then key ne else key ce)"
    using comp by (simp add: expr_lt_key)
  with wf have lt: "key cs < key ?end"
    by (simp split: if_splits)
  then have neq: "cs \<noteq> ?end" by auto
  from lt comp e have "expr_lt cs ?end"
    by (simp add: expr_lt_key)
  from Interval_new_lt[OF comp(1) e this, of ?lo ?ro] new
  have shape: "\<exists>s e lo ro. m = Interval s e lo ro"
    by simp
  have lo: "?lo = (if key cs = key ns then clo \<and> nlo else clo)"
    using comp by (simp add: key_eq_iff)
  have ro: "?ro = (if key ce < key ne then nro else if key ne < key ce then cro else cro \<and> nro)"
    using comp by (simp add: expr_lt_key)
  have "inside x (cs, ce, clo, cro) \<or> inside x (ns, ne, nlo, nro)" if "in_leaf x m"
  proof -
    from new that neq cx have "inside x (cs, ?end, ?lo, ?ro)"
      by (intro Interval_new_sound) blast+
    then have "is_comparable x \<and> is_comparable cs \<and> is_comparable ?end
        \<and> (if ?lo then key cs < key x else key cs \<le> key x)
        \<and> (if ?ro then key x < key ?end else key x \<le> key ?end)"
      by (rule iffD1 [OF inside_iff])
    then have x: "is_comparable x"
      and l: "if ?lo then key cs < key x else key cs \<le> key x"
      and r: "if ?ro then key x < key ?end else key x \<le> key ?end"
      by blast+
    from wf touch l r have
      "((if clo then key cs < key x else key cs \<le> key x) \<and> (if cro then key x < key ce else key x \<le> key ce))
     \<or> ((if nlo then key ns < key x else key ns \<le> key x) \<and> (if nro then key x < key ne else key x \<le> key ne))"
      unfolding "end" lo ro by (rule merged_cover)
    with x comp show ?thesis
      by (simp only: inside_iff simp_thms)
  qed
  with shape Interval_new_proper_result[OF new] show ?thesis by blast
qed

subsection \<open>Finite sets\<close>

lemma elements_in_leaf: "elements s = Some els \<Longrightarrow> in_leaf x s \<longleftrightarrow> x \<in> set els"
  by (cases s) (auto simp: in_leaf_simple)

lemma FiniteSet_new_cases:
  "FiniteSet_new (OneIterable xs) = EmptySet \<and> xs = []
 \<or> (\<exists>v. FiniteSet_new (OneIterable xs) = SingletonSet v \<and> xs = [v])
 \<or> FiniteSet_new (OneIterable xs) = FiniteSet (remdups xs) \<and> xs \<noteq> []"
  by (cases xs; cases "tl xs") (auto simp: FiniteSet_new_def SingletonSet_new_def Let_def)

lemma in_leaf_FiniteSet_new: "in_leaf x (FiniteSet_new (OneIterable xs)) \<longleftrightarrow> x \<in> set xs"
  using FiniteSet_new_cases[of xs] by (auto simp: in_leaf_simple)

lemma elements_FiniteSet_new:
  "elements (FiniteSet_new (OneIterable xs)) = Some ys \<Longrightarrow> set ys = set xs"
  using FiniteSet_new_cases[of xs] by auto

lemma proper_FiniteSet_new: "proper (FiniteSet_new (OneIterable xs))"
  using FiniteSet_new_cases[of xs] by auto

lemma in_op_finite: "elements F = Some els \<Longrightarrow> in_op y F = Inr (y \<in> set els)"
  by (cases F) (auto simp: in_op_def)

subsection \<open>The Union constructor adds no point\<close>

lemma classify_invariant:
  assumes "classify args iv fs os = Inr (iv', fs', os')"
    and "\<forall>ob\<in>set args. obj_proper ob"
    and "\<forall>i\<in>set iv. pure_interval i \<and> proper i" and "\<forall>f\<in>set fs. is_FiniteSet f"
    and "\<forall>s\<in>set os. proper s"
  shows "(\<forall>i\<in>set iv'. pure_interval i \<and> proper i) \<and> (\<forall>f\<in>set fs'. is_FiniteSet f)
       \<and> (\<forall>s\<in>set os'. proper s)"
  using assms
proof (induction args iv fs os rule: classify.induct)
  case (3 cs args intervals finite_sets other_sets)
  from "3.prems"(2) have "\<forall>ob\<in>set (args @ map SetObj cs). obj_proper ob"
    by auto
  with 3 show ?case by simp
next
  case (5 xs args intervals finite_sets other_sets)
  from "5.prems"(2) have "\<forall>ob\<in>set (args @ xs). obj_proper ob"
    by auto
  with 5 show ?case by simp
qed (auto split: if_splits)

lemma classify_sound:
  assumes "classify args iv fs os = Inr (iv', fs', os')"
    and "s \<in> set iv' \<union> set fs' \<union> set os'" and "in_leaf x s"
  shows "(\<exists>t\<in>set iv \<union> set fs \<union> set os. in_leaf x t) \<or> (\<exists>ob\<in>set args. obj_mem x ob)"
  using assms
proof (induction args iv fs os rule: classify.induct)
  case (3 cs args intervals finite_sets other_sets)
  from 3 have "(\<exists>t\<in>set intervals \<union> set finite_sets \<union> set other_sets. in_leaf x t)
      \<or> (\<exists>ob\<in>set (args @ map SetObj cs). obj_mem x ob)"
    by simp
  then show ?case by (auto simp: in_leaf_UnionSet)
next
  case (5 xs args intervals finite_sets other_sets)
  from 5 have "(\<exists>t\<in>set intervals \<union> set finite_sets \<union> set other_sets. in_leaf x t)
      \<or> (\<exists>ob\<in>set (args @ xs). obj_mem x ob)"
    by simp
  then show ?case by auto
qed (auto split: if_splits)

lemma sequence_map_all2:
  "sequence (map f xs) = Inr ys \<Longrightarrow> list_all2 (\<lambda>x y. f x = Inr y) xs ys"
  by (induction xs arbitrary: ys) (auto split: sum.splits)

lemma set_insert_by_key: "set (insert_by_key x ys) = insert x (set ys)"
  by (induction ys) auto

lemma set_foldl_insert_by_key:
  "set (foldl (\<lambda>acc x. insert_by_key x acc) acc xs) = set acc \<union> set xs"
  by (induction xs arbitrary: acc) (auto simp: set_insert_by_key)

lemma start_keys_snd: "sequence (map start_key iv) = Inr keyed \<Longrightarrow> map snd keyed = iv"
  by (induction iv arbitrary: keyed) (auto simp: start_key_def split: sum.splits option.splits)

lemma sort_intervals_set: "sort_intervals iv = Inr iv' \<Longrightarrow> set iv' = set iv"
proof -
  assume "sort_intervals iv = Inr iv'"
  then obtain keyed where k: "sequence (map start_key iv) = Inr keyed" "iv' = sort_by_key keyed"
    by (auto simp: sort_intervals_def split: sum.splits)
  have "set (sort_by_key keyed) = set (map snd keyed)"
    by (simp add: sort_by_key_def set_foldl_insert_by_key)
  with k start_keys_snd[OF k(1)] show ?thesis by simp
qed

lemma merge_intervals_sound:
  assumes "merge_intervals iv = Inr iv'"
    and "\<forall>i\<in>set iv. pure_interval i \<and> proper i"
    and cx: "is_comparable x"
  shows "(\<forall>i\<in>set iv'. pure_interval i \<and> proper i)
       \<and> (\<forall>i'\<in>set iv'. in_leaf x i' \<longrightarrow> (\<exists>i\<in>set iv. in_leaf x i))"
  using assms(1,2)
proof (induction iv arbitrary: iv' rule: merge_intervals.induct)
  case (1 cur "next" rest)
  from "1.prems"(2) obtain cs ce clo cro ns ne nlo nro
    where cur: "cur = Interval cs ce clo cro" and nxt: "next = Interval ns ne nlo nro"
    by (cases cur; cases "next") auto
  let ?c = "(cs, ce, clo, cro)" and ?n = "(ns, ne, nlo, nro)"
  from "1.prems"(2) have pc: "proper (Interval cs ce clo cro)" and pn: "proper (Interval ns ne nlo nro)"
    and rest: "\<forall>i\<in>set rest. pure_interval i \<and> proper i"
    by (simp_all add: cur nxt)
  show ?case
  proof (cases "should_merge ?c ?n")
    case True
    with "1.prems"(1) obtain m where m: "merged ?c ?n = Inr m" "merge_intervals (m # rest) = Inr iv'"
      by (auto simp: cur nxt split: sum.splits)
    note ms = merged_sound[OF True m(1) pc pn cx]
    from ms rest have "\<forall>i\<in>set (m # rest). pure_interval i \<and> proper i"
      by auto
    with "1.IH"(1)[of ?c ?n m iv'] True m
    have ih: "(\<forall>i\<in>set iv'. pure_interval i \<and> proper i)
       \<and> (\<forall>i'\<in>set iv'. in_leaf x i' \<longrightarrow> (\<exists>i\<in>set (m # rest). in_leaf x i))"
      by (simp add: cur nxt)
    have "in_leaf x m \<longrightarrow> in_leaf x cur \<or> in_leaf x next"
      using ms by (auto simp: cur nxt intro: inside_in_leaf)
    with ih show ?thesis by auto
  next
    case False
    with "1.prems"(1) obtain r where r: "merge_intervals (next # rest) = Inr r" "iv' = cur # r"
      by (auto simp: cur nxt split: sum.splits)
    from "1.prems"(2) have "\<forall>i\<in>set (next # rest). pure_interval i \<and> proper i"
      by simp
    with "1.IH"(2)[of ?c ?n r] False r
    have ih: "(\<forall>i\<in>set r. pure_interval i \<and> proper i)
       \<and> (\<forall>i'\<in>set r. in_leaf x i' \<longrightarrow> (\<exists>i\<in>set (next # rest). in_leaf x i))"
      by (simp add: cur nxt)
    with r(2) "1.prems"(2) show ?thesis by auto
  qed
qed auto

lemma sum_finite_sets_sound:
  assumes "sum_finite_sets acc fs = Inr F" and "elements F = Some els" and "x \<in> set els"
  shows "\<exists>g\<in>set (acc # fs). in_leaf x g"
  using assms
proof (induction fs arbitrary: acc)
  case Nil
  then show ?case by (simp add: elements_in_leaf)
next
  case (Cons f fs)
  from Cons.prems(1) obtain xs ys where e: "elements acc = Some xs" "elements f = Some ys"
    and s: "sum_finite_sets (finite_union xs ys) fs = Inr F"
    by (auto split: option.splits)
  from Cons.IH[OF s Cons.prems(2,3)] have "in_leaf x (finite_union xs ys) \<or> (\<exists>g\<in>set fs. in_leaf x g)"
    by simp
  moreover have "in_leaf x (finite_union xs ys) \<longleftrightarrow> in_leaf x acc \<or> in_leaf x f"
    using e by (simp add: finite_union_def in_leaf_FiniteSet_new elements_in_leaf)
  ultimately show ?case by auto
qed

lemma filter_result_subset: "filter_result p xs = Inr ys \<Longrightarrow> set ys \<subseteq> set xs"
  by (induction xs arbitrary: ys) (auto split: sum.splits if_splits)

lemma closed_boundary_cover:
  fixes s e x :: "'a::linorder"
  assumes "if \<not> cl then s < x else s \<le> x" and "if \<not> cr then x < e else x \<le> e"
  shows "(cl \<and> x = s) \<or> (cr \<and> x = e)
       \<or> ((if lo then s < x else s \<le> x) \<and> (if ro then x < e else x \<le> e))"
  using assms by (cases cl; cases cr; cases lo; cases ro) auto

lemma close_interval_sound:
  assumes "close_interval F (Interval s e lo ro) = Inr i'"
    and "proper (Interval s e lo ro)" and "elements F = Some els"
    and cx: "is_comparable x"
  shows "pure_interval i' \<and> proper i'
       \<and> (in_leaf x i' \<longrightarrow> in_leaf x (Interval s e lo ro) \<or> x \<in> set els)"
proof -
  let ?cl = "lo \<and> s \<in> set els" and ?cr = "ro \<and> e \<in> set els"
  have l: "(if lo then in_op s F else Inr False) = Inr ?cl"
    and r: "(if ro then in_op e F else Inr False) = Inr ?cr"
    using assms(3) by (simp_all add: in_op_finite)
  show ?thesis
  proof (cases "?cl \<or> ?cr")
    case False
    with assms(1) l r have "i' = Interval s e lo ro"
      by (auto simp: close_interval_def bind_def)
    with assms(2) show ?thesis by simp
  next
    case True
    with assms(1) have new: "Interval_new s e (\<not> ?cl) (\<not> ?cr) = Inr i'"
      unfolding close_interval_def by (simp only: interval_args.simps option.case prod.case l r bind_Inr) auto
    from assms(2) have ne: "s \<noteq> e" and nlt: "\<not> (is_comparable e \<and> is_comparable s \<and> expr_lt e s)"
      by (auto dest: expr_lt_asym)
    from new ne nlt have shape: "pure_interval i'"
      by (auto simp: Interval_new_def SingletonSet_new_def Let_def split: if_splits)
    have "in_leaf x (Interval s e lo ro) \<or> x \<in> set els" if "in_leaf x i'"
    proof -
      from new that ne cx have "inside x (s, e, \<not> ?cl, \<not> ?cr)"
        by (intro Interval_new_sound) blast+
      then have "is_comparable x \<and> is_comparable s \<and> is_comparable e
        \<and> (if \<not> ?cl then key s < key x else key s \<le> key x)
        \<and> (if \<not> ?cr then key x < key e else key x \<le> key e)"
        by (rule iffD1 [OF inside_iff])
      then have c: "is_comparable x" "is_comparable s" "is_comparable e"
        and b: "if \<not> ?cl then key s < key x else key s \<le> key x"
               "if \<not> ?cr then key x < key e else key x \<le> key e"
        by blast+
      from closed_boundary_cover[OF b, of lo ro]
      consider "?cl \<and> key x = key s" | "?cr \<and> key x = key e"
        | "(if lo then key s < key x else key s \<le> key x) \<and> (if ro then key x < key e else key x \<le> key e)"
        by blast
      then show ?thesis
      proof cases
        case 1
        with c have "x = s" by (simp add: key_eq_iff)
        with 1 show ?thesis by simp
      next
        case 2
        with c have "x = e" by (simp add: key_eq_iff)
        with 2 show ?thesis by simp
      next
        case 3
        with c have "inside x (s, e, lo, ro)"
          by (simp only: inside_iff simp_thms)
        then show ?thesis by (simp add: inside_in_leaf)
      qed
    qed
    with shape Interval_new_proper_result[OF new] show ?thesis by blast
  qed
qed

lemma list_all2_right: "list_all2 P xs ys \<Longrightarrow> y \<in> set ys \<Longrightarrow> \<exists>x\<in>set xs. P x y"
  by (induction rule: list_all2_induct) auto

lemma close_all_sound:
  assumes "sequence (map (close_interval F) iv) = Inr iv'"
    and "\<forall>i\<in>set iv. pure_interval i \<and> proper i" and "elements F = Some els"
    and cx: "is_comparable x"
  shows "(\<forall>i\<in>set iv'. pure_interval i \<and> proper i)
       \<and> (\<forall>i'\<in>set iv'. in_leaf x i' \<longrightarrow> (\<exists>i\<in>set iv. in_leaf x i) \<or> x \<in> set els)"
proof -
  from sequence_map_all2[OF assms(1)]
  have all2: "list_all2 (\<lambda>i i'. close_interval F i = Inr i') iv iv'" .
  have one: "pure_interval i' \<and> proper i' \<and> (in_leaf x i' \<longrightarrow> in_leaf x i \<or> x \<in> set els)"
    if "i \<in> set iv" "close_interval F i = Inr i'" for i i'
  proof -
    from that(1) assms(2) have p: "proper i" and "pure_interval i"
      by blast+
    then obtain s e lo ro where i: "i = Interval s e lo ro"
      by (cases i) auto
    from close_interval_sound[OF that(2)[unfolded i] p[unfolded i] assms(3) cx] i
    show ?thesis by simp
  qed
  have "\<exists>i\<in>set iv. close_interval F i = Inr i'" if "i' \<in> set iv'" for i'
    using all2 that by (rule list_all2_right)
  with one show ?thesis by blast
qed

lemma len_FiniteSet_new: "\<exists>n. len (FiniteSet_new (OneIterable xs)) = Inr n"
  using FiniteSet_new_cases[of xs] by auto

lemma absorb_finite_sets_sound:
  assumes "absorb_finite_sets iv fs os = Inr (iv', os')"
    and "\<forall>i\<in>set iv. pure_interval i \<and> proper i" and "\<forall>s\<in>set os. proper s"
    and cx: "is_comparable x"
  shows "(\<forall>s\<in>set iv' \<union> set os'. proper s)
       \<and> (\<forall>s\<in>set iv' \<union> set os'. in_leaf x s \<longrightarrow> (\<exists>t\<in>set iv \<union> set fs \<union> set os. in_leaf x t))"
proof (cases fs)
  case Nil
  with assms show ?thesis by (auto simp: absorb_finite_sets_def)
next
  case (Cons f fs')
  from assms(1) obtain F where F: "sum_finite_sets f fs' = Inr F"
    by (auto simp: absorb_finite_sets_def Cons bind_def split: sum.splits)
  from assms(1) F obtain closed where cl: "sequence (map (close_interval F) iv) = Inr closed"
    by (auto simp: absorb_finite_sets_def Cons bind_def split: sum.splits)
  from assms(1) F cl obtain els where els: "elements F = Some els"
    by (auto simp: absorb_finite_sets_def Cons bind_def split: option.splits)
  from assms(1) F cl els obtain kept where k: "filter_result (not_covered closed) els = Inr kept"
    by (auto simp: absorb_finite_sets_def Cons bind_def split: sum.splits)
  let ?fc = "FiniteSet_new (OneIterable kept)"
  from assms(1) F cl els k have res: "iv' = closed" "os' = os \<or> os' = os @ [?fc]"
    by (auto simp: absorb_finite_sets_def Cons bind_def Let_def split: sum.splits if_splits)
  note cs = close_all_sound[OF cl assms(2) els cx]
  have from_F: "\<exists>g\<in>set fs. in_leaf x g" if "x \<in> set els"
    using sum_finite_sets_sound[OF F els that] Cons by simp
  have "in_leaf x ?fc \<longrightarrow> x \<in> set els"
    using filter_result_subset[OF k] by (auto simp: in_leaf_FiniteSet_new)
  with cs from_F res assms(3) proper_FiniteSet_new[of kept] show ?thesis
    by auto
qed

lemma Union_new_sound:
  assumes "Union_new args = Inr r" and "\<forall>ob\<in>set args. obj_proper ob"
    and cx: "is_comparable x"
  shows "proper r \<and> (in_leaf x r \<longrightarrow> (\<exists>ob\<in>set args. obj_mem x ob))"
proof -
  from assms(1) obtain iv fs os where c: "classify args [] [] [] = Inr (iv, fs, os)"
    by (auto simp: Union_new_def bind_def split: sum.splits)
  show ?thesis
  proof (cases "iv = [] \<and> os = [] \<and> fs = []")
    case True
    with assms(1) c have "r = EmptySet"
      by (simp add: Union_new_def bind_def)
    then show ?thesis by (simp add: in_leaf_simple)
  next
    case False
    with assms(1) c obtain iv1 where s: "sort_intervals iv = Inr iv1"
      by (auto simp: Union_new_def bind_def split: sum.splits)
    with assms(1) c False obtain iv2 where m: "merge_intervals iv1 = Inr iv2"
      by (auto simp: Union_new_def bind_def split: sum.splits)
    with assms(1) c False s obtain iv3 os3 where a: "absorb_finite_sets iv2 fs os = Inr (iv3, os3)"
      by (auto simp: Union_new_def bind_def split: sum.splits)
    with assms(1) c False s m have r:
      "r = (if length iv3 = 1 \<and> length os3 = 0 then iv3 ! 0
            else if length iv3 = 0 \<and> length os3 = 1 then os3 ! 0
            else UnionSet (iv3 @ os3))"
      by (auto simp: Union_new_def bind_def)
    note ci = classify_invariant[OF c assms(2)]
    from ci have b: "\<forall>i\<in>set iv. pure_interval i \<and> proper i" "\<forall>s\<in>set os. proper s"
      by simp_all
    from b(1) sort_intervals_set[OF s] have b1: "\<forall>i\<in>set iv1. pure_interval i \<and> proper i"
      by simp
    note ms = merge_intervals_sound[OF m b1 cx]
    then have b2: "\<forall>i\<in>set iv2. pure_interval i \<and> proper i"
      by simp
    note as = absorb_finite_sets_sound[OF a b2 b(2) cx]
    have trace: "\<exists>ob\<in>set args. obj_mem x ob" if "s \<in> set iv3 \<union> set os3" "in_leaf x s" for s
    proof -
      from as that obtain t where t: "t \<in> set iv2 \<union> set fs \<union> set os" "in_leaf x t"
        by blast
      with ms sort_intervals_set[OF s] obtain u where u: "u \<in> set iv \<union> set fs \<union> set os" "in_leaf x u"
        by blast
      from classify_sound[OF c u] show ?thesis by simp
    qed
    have comps: "proper r \<and> (in_leaf x r \<longrightarrow> (\<exists>s\<in>set iv3 \<union> set os3. in_leaf x s))"
    proof -
      consider "length iv3 = 1 \<and> length os3 = 0" | "\<not> (length iv3 = 1 \<and> length os3 = 0) \<and> length iv3 = 0 \<and> length os3 = 1"
        | "\<not> (length iv3 = 1 \<and> length os3 = 0) \<and> \<not> (length iv3 = 0 \<and> length os3 = 1)"
        by blast
      then show ?thesis
      proof cases
        case 1
        then obtain i where "iv3 = [i]" by (cases iv3) auto
        with 1 r as show ?thesis by simp
      next
        case 2
        then obtain s where "os3 = [s]" by (cases os3) auto
        with 2 r as show ?thesis by simp
      next
        case 3
        then have "\<not> (length iv3 = 1 \<and> length os3 = 0)" "\<not> (length iv3 = 0 \<and> length os3 = 1)"
          by blast+
        with r have "r = UnionSet (iv3 @ os3)" by (simp only: if_False)
        with as show ?thesis by (auto simp: in_leaf_UnionSet)
      qed
    qed
    with trace show ?thesis by blast
  qed
qed

lemma Union_of_sound:
  assumes "Union_of rs = Inr r" and "\<forall>s\<in>set rs. proper s"
    and cx: "is_comparable x"
  shows "proper r \<and> (in_leaf x r \<longrightarrow> (\<exists>s\<in>set rs. in_leaf x s))"
  using Union_new_sound[of "map SetObj rs" r x] assms by (auto simp: Union_of_def)

subsection \<open>Containment, membership in a component, equality\<close>

lemma Or_True_iff: "Or ts = PyBool True \<longleftrightarrow> PyBool True \<in> set ts"
  by (induction ts rule: Or.induct) (auto split: truth.splits bool.splits)

lemma list_all2_left: "list_all2 P xs ys \<Longrightarrow> x \<in> set xs \<Longrightarrow> \<exists>y\<in>set ys. P x y"
  by (induction rule: list_all2_induct) auto

lemma contains_queryable: "queryable s \<longleftrightarrow> (\<exists>t. contains s y = Inr t)"
proof (induction s)
  case (UnionSet cs)
  have "(\<exists>t. contains (UnionSet cs) y = Inr t)
      \<longleftrightarrow> (\<exists>ts. sequence (map (\<lambda>c. contains c y) cs) = Inr ts)"
    by (auto split: sum.splits)
  also have "\<dots> \<longleftrightarrow> (\<forall>c\<in>set cs. \<exists>t. contains c y = Inr t)"
    by (simp add: sequence_Inr_iff)
  also have "\<dots> \<longleftrightarrow> (\<forall>c\<in>set cs. queryable c)"
    using UnionSet.IH by blast
  finally show ?case by simp
qed (simp_all add: Let_def)

lemma contains_in_leaf: "contains s x = Inr (PyBool True) \<Longrightarrow> in_leaf x s"
proof (induction s)
  case (UnionSet cs)
  from UnionSet.prems obtain ts where ts: "sequence (map (\<lambda>c. contains c x) cs) = Inr ts"
    and "Or ts = PyBool True"
    by (auto split: sum.splits)
  then have "PyBool True \<in> set ts"
    by (simp add: Or_True_iff)
  with list_all2_right[OF sequence_map_all2[OF ts]] obtain c
    where "c \<in> set cs" "contains c x = Inr (PyBool True)"
    by blast
  with UnionSet.IH show ?case by (auto simp: in_leaf_UnionSet)
qed (simp_all add: in_leaf.simps)

lemma in_leaf_contains: "in_leaf x s \<Longrightarrow> queryable s \<Longrightarrow> contains s x = Inr (PyBool True)"
proof (induction s)
  case (UnionSet cs)
  from UnionSet.prems(2) have "\<forall>c\<in>set cs. \<exists>t. contains c x = Inr t"
    using contains_queryable by auto
  then obtain ts where ts: "sequence (map (\<lambda>c. contains c x) cs) = Inr ts"
    using sequence_Inr_iff[of "map (\<lambda>c. contains c x) cs"] by auto
  from UnionSet.prems obtain c where c: "c \<in> set cs" "in_leaf x c" "queryable c"
    by (auto simp: in_leaf_UnionSet)
  with UnionSet.IH have "contains c x = Inr (PyBool True)"
    by blast
  with list_all2_left[OF sequence_map_all2[OF ts] c(1)] have "PyBool True \<in> set ts"
    by auto
  with ts show ?case by (simp add: Or_True_iff)
qed (simp_all add: in_leaf.simps)

lemma set_eq_in_leaf: "set_eq r b \<Longrightarrow> in_leaf x r \<longleftrightarrow> in_leaf x b"
proof (induction r b rule: set_eq.induct)
  case (7 cs ds)
  then have all2: "list_all2 set_eq cs ds" by simp
  have "(\<exists>c\<in>set cs. in_leaf x c) \<longleftrightarrow> (\<exists>d\<in>set ds. in_leaf x d)"
  proof
    assume "\<exists>c\<in>set cs. in_leaf x c"
    then obtain c where c: "c \<in> set cs" "in_leaf x c" by blast
    with list_all2_left[OF all2 c(1)] obtain d where "d \<in> set ds" "set_eq c d" by blast
    with c "7.IH" show "\<exists>d\<in>set ds. in_leaf x d" by blast
  next
    assume "\<exists>d\<in>set ds. in_leaf x d"
    then obtain d where d: "d \<in> set ds" "in_leaf x d" by blast
    with list_all2_right[OF all2 d(1)] obtain c where "c \<in> set cs" "set_eq c d" by blast
    with d "7.IH" show "\<exists>c\<in>set cs. in_leaf x c" by blast
  qed
  then show ?case by (simp add: in_leaf_UnionSet)
qed (auto simp: in_leaf_simple elements_in_leaf split: option.splits)

subsection \<open>Intersection stays inside both operands\<close>

lemma filter_result_mem:
  "filter_result p xs = Inr ys \<Longrightarrow> x \<in> set ys \<Longrightarrow> x \<in> set xs \<and> p x = Inr True"
  by (induction xs arbitrary: ys) (auto split: sum.splits if_splits)

lemma finite_intersect_sound:
  assumes "finite_intersect els b = Inr r"
  shows "proper r \<and> (in_leaf x r \<longrightarrow> x \<in> set els \<and> in_leaf x b) \<and> (in_leaf x r \<longrightarrow> queryable b)"
proof (cases "elements b")
  case (Some ys)
  then have "queryable b" by (cases b) auto
  with Some assms show ?thesis
    by (auto simp: finite_intersect_def proper_FiniteSet_new in_leaf_FiniteSet_new elements_in_leaf)
next
  case None
  with assms obtain kept where k: "filter_result (\<lambda>el. in_op el b) els = Inr kept"
    and r: "r = FiniteSet_new (OneIterable kept)"
    by (auto simp: finite_intersect_def split: sum.splits)
  have "x \<in> set els \<and> in_leaf x b \<and> queryable b" if "in_leaf x r"
  proof -
    from that r have "x \<in> set kept" by (simp add: in_leaf_FiniteSet_new)
    from filter_result_mem[OF k this] have x: "x \<in> set els" "in_op x b = Inr True"
      by simp_all
    then have c: "contains b x = Inr (PyBool True)"
      by (auto simp: in_op_def split: sum.splits truth.splits)
    with contains_queryable[of b x] contains_in_leaf x show ?thesis by simp
  qed
  with r show ?thesis by (auto simp: proper_FiniteSet_new)
qed

lemma inside_interval_args:
  "interval_args s = Some a \<Longrightarrow> inside x a \<Longrightarrow> in_leaf x s"
proof (cases s)
  case (SingletonSet v)
  assume "interval_args s = Some a" "inside x a"
  with SingletonSet have "is_comparable x" "is_comparable v" "key v \<le> key x" "key x \<le> key v"
    by (auto simp: inside_iff)
  then have "x = v" using key_eq_iff[of x v] by auto
  with SingletonSet show ?thesis by (simp add: in_leaf_simple)
qed (auto intro: inside_in_leaf)

lemma interval_intersect_proper: "interval_intersect a b = Inr r \<Longrightarrow> proper r"
  by (cases a; cases b)
     (auto simp: interval_intersect_def Let_def split: if_splits dest: Interval_new_proper_result)

lemmas intersect_simple = intersect.simps(1-6)

lemma intersect_Union_Interval:
  "is_Interval other \<Longrightarrow> intersect (UnionSet cs) other =
     (case sequence (map (\<lambda>interval. intersect interval other) cs) of
        Inl e \<Rightarrow> Inl e | Inr intersections \<Rightarrow> Union_of intersections)"
  by (subst intersect.simps) simp

lemma intersect_Union_swap:
  "\<not> is_Interval other \<Longrightarrow> (\<And>ds. other \<noteq> UnionSet ds) \<Longrightarrow>
   intersect (UnionSet cs) other = intersect other (UnionSet cs)"
  by (subst intersect.simps) (simp split: sset.splits)

lemma intersect_Union_Union:
  "intersect (UnionSet cs) (UnionSet ds) =
     (case sequence (map (\<lambda>s. intersect (UnionSet cs) s) ds) of
        Inl e \<Rightarrow> Inl e | Inr intersections \<Rightarrow> Union_of intersections)"
  by (subst intersect.simps) simp

declare intersect.simps [simp del]

lemma intersect_Union_components:
  assumes "sequence (map f cs) = Inr rs" and "Union_of rs = Inr r"
    and "\<And>c rc. c \<in> set cs \<Longrightarrow> f c = Inr rc \<Longrightarrow> proper rc \<and> (in_leaf x rc \<longrightarrow> Q c)"
    and cx: "is_comparable x"
  shows "proper r \<and> (in_leaf x r \<longrightarrow> (\<exists>c\<in>set cs. Q c))"
proof -
  note all2 = sequence_map_all2[OF assms(1)]
  have rs: "\<exists>c\<in>set cs. f c = Inr rc" if "rc \<in> set rs" for rc
    using all2 that by (rule list_all2_right)
  with assms(3) have "\<forall>rc\<in>set rs. proper rc" by blast
  from Union_of_sound[OF assms(2) this cx] rs assms(3) show ?thesis by blast
qed

lemma intersect_sound:
  assumes cx: "is_comparable x"
  shows "intersect a b = Inr r \<Longrightarrow> proper r \<and> (in_leaf x r \<longrightarrow> in_leaf x a \<and> in_leaf x b)"
proof (induction a b arbitrary: r rule: intersect.induct)
  case (1 other)
  then show ?case by (simp add: in_leaf_simple intersect_simple)
next
  case (2 other)
  then show ?case by (simp add: intersect_simple)
next
  case (3 other)
  then show ?case by (simp add: intersect_simple)
next
  case (4 els other)
  with finite_intersect_sound[of els other r x] show ?case
    by (simp add: in_leaf_simple intersect_simple)
next
  case (5 v other)
  with finite_intersect_sound[of "[v]" other r x] show ?case
    by (simp add: in_leaf_simple intersect_simple)
next
  case (6 s e lo ro other)
  show ?case
  proof (cases "interval_args other")
    case None
    with "6.prems" have "intersect other (Interval s e lo ro) = Inr r" by (simp add: intersect_simple)
    from "6.IH"[OF None this] show ?thesis by blast
  next
    case (Some oa)
    with "6.prems" have ii: "interval_intersect (s, e, lo, ro) oa = Inr r" by (simp add: intersect_simple)
    obtain os oe olo oro where oa: "oa = (os, oe, olo, oro)" by (cases oa) auto
    from interval_intersect_sound[OF ii[unfolded oa] _ cx] oa
    have "in_leaf x r \<longrightarrow> inside x (s, e, lo, ro) \<and> inside x oa" by simp
    with inside_interval_args[OF Some] interval_intersect_proper[OF ii] show ?thesis
      by (auto intro: inside_in_leaf)
  qed
next
  case (7 cs other)
  show ?case
  proof (cases "is_Interval other")
    case True
    with "7.prems" obtain rs where rs: "sequence (map (\<lambda>interval. intersect interval other) cs) = Inr rs"
      and u: "Union_of rs = Inr r"
      by (auto simp: intersect_Union_Interval split: sum.splits)
    have "proper r \<and> (in_leaf x r \<longrightarrow> (\<exists>c\<in>set cs. in_leaf x c \<and> in_leaf x other))"
      using rs u "7.IH"(1)[OF True] by (rule intersect_Union_components[OF _ _ _ cx])
    then show ?thesis by (auto simp: in_leaf_UnionSet)
  next
    case notI: False
    show ?thesis
    proof (cases "is_FiniteSet other")
      case True
      with notI "7.prems" have "intersect other (UnionSet cs) = Inr r"
        by (cases other) (simp_all add: intersect_Union_swap)
      from "7.IH"(2)[OF notI True this] show ?thesis by blast
    next
      case notF: False
      show ?thesis
      proof (cases other)
        case (UnionSet ds)
        with notI notF "7.prems" obtain rs
          where rs: "sequence (map (\<lambda>s. intersect (UnionSet cs) s) ds) = Inr rs"
          and u: "Union_of rs = Inr r"
          by (auto simp: intersect_Union_Union split: sum.splits)
        have "proper r \<and> (in_leaf x r \<longrightarrow> (\<exists>d\<in>set ds. in_leaf x (UnionSet cs) \<and> in_leaf x d))"
          using rs u "7.IH"(9)[OF notI notF UnionSet] by (rule intersect_Union_components[OF _ _ _ cx])
        with UnionSet show ?thesis by (auto simp: in_leaf_UnionSet)
      next
        case EmptySet
        with notI notF "7.prems" have "intersect other (UnionSet cs) = Inr r"
          by (simp add: intersect_Union_swap)
        from "7.IH"(3)[OF notI notF EmptySet this] show ?thesis by blast
      next
        case AbstractSet
        with notI notF "7.prems" show ?thesis by (simp add: intersect_Union_swap intersect_simple)
      next
        case DiscreteSet
        with notI notF "7.prems" show ?thesis by (simp add: intersect_Union_swap intersect_simple)
      next
        case (Interval s e lo ro)
        with notI show ?thesis by simp
      next
        case (FiniteSet els)
        with notF show ?thesis by simp
      next
        case (SingletonSet v)
        with notI show ?thesis by simp
      qed
    qed
  qed
qed

lemma intersect_proper: "intersect a b = Inr r \<Longrightarrow> proper r"
  using intersect_sound[of "Number 0" a b r] by simp

text \<open>An intersection that has a member was taken of two sets whose components can all
  answer a containment query.\<close>

lemma intersect_with_interval_queryable:
  "is_Interval b \<Longrightarrow> intersect a b = Inr r \<Longrightarrow> queryable a"
proof (induction a arbitrary: r)
  case (UnionSet cs)
  then obtain rs where "sequence (map (\<lambda>interval. intersect interval b) cs) = Inr rs"
    by (auto simp: intersect_Union_Interval split: sum.splits)
  then have "\<forall>c\<in>set cs. \<exists>rc. intersect c b = Inr rc"
    using sequence_Inr_iff[of "map (\<lambda>interval. intersect interval b) cs"] by auto
  with UnionSet.IH UnionSet.prems(1) show ?case by auto
qed (simp_all add: intersect_simple)

lemma Union_intersect_queryable: "intersect (UnionSet cs) s = Inr r \<Longrightarrow> queryable s"
proof (induction s arbitrary: r)
  case (UnionSet ds)
  then obtain rs where "sequence (map (\<lambda>s. intersect (UnionSet cs) s) ds) = Inr rs"
    by (auto simp: intersect_Union_Union split: sum.splits)
  then have "\<forall>d\<in>set ds. \<exists>rd. intersect (UnionSet cs) d = Inr rd"
    using sequence_Inr_iff[of "map (\<lambda>s. intersect (UnionSet cs) s) ds"] by auto
  with UnionSet.IH show ?case by auto
qed (simp_all add: intersect_Union_swap intersect_simple)

lemma intersect_queryable:
  assumes cx: "is_comparable x"
  shows "intersect a b = Inr r \<Longrightarrow> in_leaf x r \<Longrightarrow> queryable a \<and> queryable b"
proof (induction a b arbitrary: r rule: intersect.induct)
  case (1 other)
  then show ?case by (simp add: in_leaf_simple intersect_simple)
next
  case (2 other)
  then show ?case by (simp add: intersect_simple)
next
  case (3 other)
  then show ?case by (simp add: intersect_simple)
next
  case (4 els other)
  with finite_intersect_sound[of els other r x] show ?case by (simp add: intersect_simple)
next
  case (5 v other)
  with finite_intersect_sound[of "[v]" other r x] show ?case by (simp add: intersect_simple)
next
  case (6 s e lo ro other)
  show ?case
  proof (cases "interval_args other")
    case None
    with "6.prems" have "intersect other (Interval s e lo ro) = Inr r" by (simp add: intersect_simple)
    from "6.IH"[OF None this "6.prems"(2)] show ?thesis by blast
  next
    case (Some oa)
    then show ?thesis by (cases other) auto
  qed
next
  case (7 cs other)
  show ?case
  proof (cases "is_Interval other")
    case True
    then have "queryable other" by (cases other) auto
    with intersect_with_interval_queryable[OF True "7.prems"(1)] show ?thesis by simp
  next
    case notI: False
    show ?thesis
    proof (cases "is_FiniteSet other")
      case True
      with notI "7.prems" have "intersect other (UnionSet cs) = Inr r"
        by (cases other) (simp_all add: intersect_Union_swap)
      from "7.IH"(2)[OF notI True this "7.prems"(2)] show ?thesis by blast
    next
      case notF: False
      show ?thesis
      proof (cases other)
        case (UnionSet ds)
        with notI notF "7.prems" obtain rs
          where rs: "sequence (map (\<lambda>s. intersect (UnionSet cs) s) ds) = Inr rs"
          and u: "Union_of rs = Inr r"
          by (auto simp: intersect_Union_Union split: sum.splits)
        note all2 = sequence_map_all2[OF rs]
        have from_ds: "\<exists>d\<in>set ds. intersect (UnionSet cs) d = Inr rd" if "rd \<in> set rs" for rd
          using all2 that by (rule list_all2_right)
        then have "\<forall>rd\<in>set rs. proper rd"
          using intersect_proper by blast
        from Union_of_sound[OF u this cx] "7.prems"(2) obtain rd where rd: "rd \<in> set rs" "in_leaf x rd"
          by blast
        with from_ds obtain d where d: "d \<in> set ds" "intersect (UnionSet cs) d = Inr rd"
          by blast
        from "7.IH"(9)[OF notI notF UnionSet d rd(2)] have "queryable (UnionSet cs)"
          by blast
        with Union_intersect_queryable[OF "7.prems"(1)] show ?thesis by simp
      next
        case EmptySet
        with notI notF "7.prems" have "intersect other (UnionSet cs) = Inr r"
          by (simp add: intersect_Union_swap)
        from "7.IH"(3)[OF notI notF EmptySet this "7.prems"(2)] show ?thesis by blast
      next
        case AbstractSet
        with notI notF "7.prems" show ?thesis by (simp add: intersect_Union_swap intersect_simple)
      next
        case DiscreteSet
        with notI notF "7.prems" show ?thesis by (simp add: intersect_Union_swap intersect_simple)
      next
        case (Interval s e lo ro)
        with notI show ?thesis by simp
      next
        case (FiniteSet els)
        with notF show ?thesis by simp
      next
        case (SingletonSet v)
        with notI show ?thesis by simp
      qed
    qed
  qed
qed

subsection \<open>Symbolic elements\<close>

text \<open>
  The implication is stated for comparable elements. For a symbol it can fail:
  \<^verbatim>\<open>Union(FiniteSet(1).complement, FiniteSet(1))\<close> closes \<open>(-oo, 1)\<close> and \<open>(1, oo)\<close> at
  \<open>1\<close> after the merge pass and so stays the unmerged pair \<open>(-oo, 1]\<close>, \<open>[1, oo)\<close>. Its
  intersection with the whole line is the whole line, so \<^verbatim>\<open>subset\<close> answers \<open>True\<close>, and a
  real symbol \<open>x\<close> lies in the whole line; but \<^verbatim>\<open>x in\<close> the pair is the unevaluated
  condition \<^verbatim>\<open>Or(x <= 1, 1 <= x)\<close>, which \<^verbatim>\<open>__contains__\<close> rejects with a
  \<^verbatim>\<open>TypeError\<close>.
\<close>

lemma symbolic_element_in_unmerged_union:
  "bind (complement (SingletonSet_new (Number 1)))
     (\<lambda>c. bind (Union_of [c, SingletonSet_new (Number 1)])
       (\<lambda>a. Inr (a,
                  subset a (SetObj (Interval NegativeInfinity Infinity True True)),
                  in_op (Symbol ''x'' True) (Interval NegativeInfinity Infinity True True),
                  in_op (Symbol ''x'' True) a)))
   = Inr (UnionSet [Interval NegativeInfinity (Number 1) True False,
                    Interval (Number 1) Infinity False True],
          Inr True, Inr True, Inl TypeError)"
  by code_simp

subsection \<open>The implication\<close>

text \<open>
  Claim C4, amended. For all sets \<open>a\<close> and \<open>b\<close> and every comparable element \<open>x\<close> (a
  concrete number or an infinity): if \<open>a.subset(b)\<close> returns \<open>True\<close> (that is,
  \<open>a.intersect(b) == b\<close>) and \<open>x in b\<close> holds, then \<open>x in a\<close> holds.
\<close>

theorem subset_membership:
  assumes "subset a (SetObj b) = Inr True" and "in_op x b = Inr True" and "is_comparable x"
  shows "in_op x a = Inr True"
proof -
  from assms(1) obtain r where r: "intersect a b = Inr r" and eq: "set_eq r b"
    by (auto simp: subset_def bind_def split: sum.splits)
  from assms(2) have "contains b x = Inr (PyBool True)"
    by (auto simp: in_op_def split: sum.splits truth.splits)
  then have "in_leaf x b" by (rule contains_in_leaf)
  with eq have m: "in_leaf x r" by (simp add: set_eq_in_leaf)
  with intersect_sound[OF assms(3) r] intersect_queryable[OF assms(3) r m] have "in_leaf x a" "queryable a"
    by simp_all
  then have "contains a x = Inr (PyBool True)" by (rule in_leaf_contains)
  then show ?thesis by (simp add: in_op_def)
qed

text \<open>
  Claim C4, amended, witness: \<open>[0, 1]\<close> is a subset of \<open>[0, 2]\<close>, and \<open>1\<close> lies in both.
\<close>

theorem subset_membership_witness:
  "in_op (Number 1) (Interval (Number 0) (Number 2) False False) = Inr True"
proof -
  have s: "subset (Interval (Number 0) (Number 2) False False)
                  (SetObj (Interval (Number 0) (Number 1) False False)) = Inr True"
    by code_simp
  have m: "in_op (Number 1) (Interval (Number 0) (Number 1) False False) = Inr True"
    by code_simp
  have c: "is_comparable (Number 1)"
    by simp
  from subset_membership [OF s m c] show ?thesis .
qed

end
